theory Spec2Isabelle
  imports Main "HOL-Library.Multiset"
begin

section \<open>Go primitives used by the storage package\<close>

text \<open>
  Go strings and byte slices are sequences of bytes; both are modelled as \<open>string\<close>
  (a list of 8-bit \<open>char\<close>), so that \<open>string(body)\<close> and \<open>[]byte(data)\<close> are the identity.
  Go's \<open>int\<close> is taken to be the 64-bit signed integer: values are \<open>int\<close>, and every
  arithmetic operation of the source is followed by the wrap-around \<open>wrap64\<close>.
\<close>

definition wrap64 :: "int \<Rightarrow> int" where
  "wrap64 x = (x + 2 ^ 63) mod 2 ^ 64 - 2 ^ 63"

definition go_add :: "int \<Rightarrow> int \<Rightarrow> int" where
  "go_add a b = wrap64 (a + b)"

definition go_mul :: "int \<Rightarrow> int \<Rightarrow> int" where
  "go_mul a b = wrap64 (a * b)"

text \<open>Go's \<open>/\<close> on integers truncates towards zero; the caller checks the divisor first.\<close>

definition go_quot :: "int \<Rightarrow> int \<Rightarrow> int" where
  "go_quot a b = wrap64 (sgn a * sgn b * (\<bar>a\<bar> div \<bar>b\<bar>))"

text \<open>\<open>strconv.Itoa\<close>: the decimal digits, with a leading minus sign for a negative number.\<close>

fun utoa :: "nat \<Rightarrow> string" where
  "utoa n = (if n < 10 then [''0123456789'' ! n]
             else utoa (n div 10) @ [''0123456789'' ! (n mod 10)])"

declare utoa.simps [simp del]

definition Itoa :: "int \<Rightarrow> string" where
  "Itoa n = (if n < 0 then CHR ''-'' # utoa (nat (- n)) else utoa (nat n))"

text \<open>\<open>strings.Join\<close>.\<close>

fun Join :: "string list \<Rightarrow> string \<Rightarrow> string" where
  "Join [] sep = []"
| "Join [x] sep = x"
| "Join (x # y # ys) sep = x @ sep @ Join (y # ys) sep"

section \<open>The storage client (storage/ufile.go)\<close>

record UfileStorage =
  PublicKey :: string
  PrivateKey :: string
  BucketName :: string

definition EXPIRE :: int where "EXPIRE = 3600"
definition SUFFIX :: string where "SUFFIX = ''.ufile.ucloud.cn''"
definition MAX_PUT_SIZE :: int where "MAX_PUT_SIZE = 52428800"

text \<open>
  The values of Go's \<open>error\<close> interface that occur in the package: \<open>Errorf\<close> is an error
  built by \<open>fmt.Errorf\<close> in the package itself; the other three are handed over unchanged
  from \<open>client.Do\<close>, \<open>ioutil.ReadAll\<close> and \<open>json.Unmarshal\<close>.
\<close>

datatype error =
    Errorf string
  | TransportError string
  | ReadError string
  | UnmarshalError string

text \<open>
  The run-time panics of the package: the division by a block size of 0, a slice expression
  out of range, and the use of the \<open>nil\<close> request that \<open>http.NewRequest\<close> returns with an
  error, which every function of the package discards before it adds the headers.
\<close>

datatype panic = DivideByZero | SliceOutOfRange | NilDereference

record request =
  Method :: string
  URL :: string
  Header :: "(string \<times> string) list"
  ReqBody :: string

record response =
  StatusCode :: int
  RespHeader :: "(string \<times> string) list"
  RespBody :: "string + string"

record initResponse =
  UploadId :: string
  BlkSize :: int
  Bucket :: string
  Key :: string

record uploadResponse =
  PartNumber :: int

record finishResponse =
  FBucket :: string
  FKey :: string
  FileSize :: int

text \<open>
  What lies outside the package is a parameter of the model. \<open>client_do n req\<close> is the
  outcome of the \<open>n\<close>-th call of \<open>client.Do\<close> of a run (counted from 0) when it sends
  \<open>req\<close>: \<open>Inl\<close> when no response was obtained, otherwise the response, whose
  \<open>RespBody\<close> is what \<open>ioutil.ReadAll\<close> yields (\<open>Inl\<close> a read failure). \<open>url_parses url\<close>
  tells whether \<open>http.NewRequest\<close> accepts the URL (the methods the package passes are
  valid). \<open>hmac_sha1 key data\<close> and \<open>base64\<close> are the library's HMAC-SHA1 and
  \<open>base64.StdEncoding.EncodeToString\<close>; the three \<open>json_\<close> functions are \<open>json.Unmarshal\<close>
  at the three result types.
\<close>

record world =
  client_do :: "nat \<Rightarrow> request \<Rightarrow> string + response"
  url_parses :: "string \<Rightarrow> bool"
  hmac_sha1 :: "string \<Rightarrow> string \<Rightarrow> string"
  base64 :: "string \<Rightarrow> string"
  json_init :: "string \<Rightarrow> string + initResponse"
  json_upload :: "string \<Rightarrow> string + uploadResponse"
  json_finish :: "string \<Rightarrow> string + finishResponse"

text \<open>\<open>Header.Add\<close> appends; \<open>Header.Get\<close> returns the first value of the key, or the empty string.\<close>

definition Header_Add :: "string \<Rightarrow> string \<Rightarrow> request \<Rightarrow> request" where
  "Header_Add k v req = req\<lparr>Header := Header req @ [(k, v)]\<rparr>"

definition Header_Get :: "(string \<times> string) list \<Rightarrow> string \<Rightarrow> string" where
  "Header_Get h k = (case map_of h k of None \<Rightarrow> [] | Some v \<Rightarrow> v)"

text \<open>\<open>http.NewRequest\<close>: \<open>None\<close> is the \<open>nil\<close> request it returns when the URL does not parse.\<close>

definition NewRequest :: "world \<Rightarrow> string \<Rightarrow> string \<Rightarrow> string \<Rightarrow> request option" where
  "NewRequest w method url body =
     (if url_parses w url
      then Some \<lparr>Method = method, URL = url, Header = [], ReqBody = body\<rparr>
      else None)"

text \<open>
  The requests handed to \<open>client.Do\<close> so far, each with the function that sent it, are
  threaded through every function that uses the network. \<open>Do\<close> is \<open>client.Do\<close>: it
  records the request and yields the outcome of this call.
\<close>

datatype op = OpPut | OpInit | OpPart | OpFinish

type_synonym calls = "(op \<times> request) list"

definition Do :: "world \<Rightarrow> op \<Rightarrow> request \<Rightarrow> calls \<Rightarrow> (string + response) \<times> calls" where
  "Do w f req cs = (client_do w (length cs) req, cs @ [(f, req)])"

subsection \<open>signheader\<close>

definition sign_data :: "string \<Rightarrow> string \<Rightarrow> string \<Rightarrow> string \<Rightarrow> string" where
  "sign_data method ctype bucket filename =
     (let data = method @ ''\<newline>'';
          data = data @ ''\<newline>'';
          data = data @ ctype @ ''\<newline>'';
          data = data @ ''\<newline>'';
          data = data @ ''/'' @ bucket @ ''/'' @ filename
      in data)"

definition signheader :: "world \<Rightarrow> UfileStorage \<Rightarrow> string \<Rightarrow> string \<Rightarrow> string \<Rightarrow> string \<Rightarrow> string" where
  "signheader w s method ctype bucket filename =
     base64 w (hmac_sha1 w (PrivateKey s) (sign_data method ctype bucket filename))"

definition auth_header :: "UfileStorage \<Rightarrow> string \<Rightarrow> string" where
  "auth_header s sign = ''UCloud'' @ '' '' @ PublicKey s @ '':'' @ sign"

subsection \<open>initiateMultipartUpload\<close>

text \<open>
  Each function is split at \<open>client.Do\<close>. The first half builds the request (for
  \<open>initiateMultipartUpload\<close> lines 58-66): \<open>None\<close> when \<open>http.NewRequest\<close> has returned
  \<open>nil\<close>, on which \<open>req.Header.Add\<close> panics.
\<close>

definition initiate_request :: "world \<Rightarrow> UfileStorage \<Rightarrow> string \<Rightarrow> request option" where
  "initiate_request w s filename =
     (let sign = signheader w s ''POST'' ''application/octet-stream'' (BucketName s) filename;
          auth = auth_header s sign;
          url = ''http://'' @ BucketName s @ SUFFIX @ ''/'' @ filename @ ''?uploads''
      in case NewRequest w ''POST'' url [] of
           None \<Rightarrow> None
         | Some req \<Rightarrow>
             (let req = Header_Add ''Authorization'' auth req;
                  req = Header_Add ''Content-Type'' ''application/octet-stream'' req
              in Some req))"

definition initiate_result :: "world \<Rightarrow> string + response \<Rightarrow> error + initResponse" where
  "initiate_result w r =
     (case r of
        Inl e \<Rightarrow> Inl (TransportError e)
      | Inr resp \<Rightarrow>
          (case RespBody resp of
             Inl e \<Rightarrow> Inl (ReadError e)
           | Inr body \<Rightarrow>
               if StatusCode resp \<noteq> 200
               then Inl (Errorf (''initiateMultipartUpload failed, '' @ body))
               else (case json_init w body of
                       Inl e \<Rightarrow> Inl (UnmarshalError e)
                     | Inr res \<Rightarrow> Inr res)))"

definition initiateMultipartUpload ::
  "world \<Rightarrow> UfileStorage \<Rightarrow> string \<Rightarrow> calls \<Rightarrow> (panic + error + initResponse) \<times> calls" where
  "initiateMultipartUpload w s filename cs =
     (case initiate_request w s filename of
        None \<Rightarrow> (Inl NilDereference, cs)
      | Some req \<Rightarrow>
          (case Do w OpInit req cs of
             (r, cs') \<Rightarrow> (Inr (initiate_result w r), cs')))"

subsection \<open>uploadPart\<close>

definition uploadPart_request ::
  "world \<Rightarrow> UfileStorage \<Rightarrow> string \<Rightarrow> initResponse \<Rightarrow> int \<Rightarrow> request option" where
  "uploadPart_request w s content info partNum =
     (let sign = signheader w s ''PUT'' ''application/octet-stream'' (Bucket info) (Key info);
          auth = auth_header s sign;
          url = ''http://'' @ Bucket info @ SUFFIX @ ''/'' @ Key info @ ''?uploadId=''
                  @ UploadId info @ ''&partNumber='' @ Itoa partNum
      in case NewRequest w ''PUT'' url content of
           None \<Rightarrow> None
         | Some req \<Rightarrow>
             (let req = Header_Add ''Authorization'' auth req;
                  req = Header_Add ''Content-Type'' ''application/octet-stream'' req;
                  req = Header_Add ''Content-Length'' (Itoa (BlkSize info)) req
              in Some req))"

text \<open>
  \<open>uploadPart_result\<close> is what \<open>uploadPart\<close> does with the outcome of \<open>client.Do\<close>
  (lines 104-119), so that a goroutine can send the request at one moment and handle the
  answer at a later one.
\<close>

definition uploadPart_result ::
  "world \<Rightarrow> string + response \<Rightarrow> error + uploadResponse \<times> string" where
  "uploadPart_result w r =
     (case r of
        Inl e \<Rightarrow> Inl (TransportError e)
      | Inr resp \<Rightarrow>
          (case RespBody resp of
             Inl e \<Rightarrow> Inl (ReadError e)
           | Inr body \<Rightarrow>
               if StatusCode resp \<noteq> 200
               then Inl (Errorf (''uploadPart failed, '' @ body))
               else (case json_upload w body of
                       Inl e \<Rightarrow> Inl (UnmarshalError e)
                     | Inr res \<Rightarrow> Inr (res, Header_Get (RespHeader resp) ''ETag''))))"

definition uploadPart ::
  "world \<Rightarrow> UfileStorage \<Rightarrow> string \<Rightarrow> initResponse \<Rightarrow> int \<Rightarrow> calls
     \<Rightarrow> (panic + error + uploadResponse \<times> string) \<times> calls" where
  "uploadPart w s content info partNum cs =
     (case uploadPart_request w s content info partNum of
        None \<Rightarrow> (Inl NilDereference, cs)
      | Some req \<Rightarrow>
          (case Do w OpPart req cs of
             (r, cs') \<Rightarrow> (Inr (uploadPart_result w r), cs')))"

subsection \<open>finishMultipartUpload\<close>

definition finish_request ::
  "world \<Rightarrow> UfileStorage \<Rightarrow> initResponse \<Rightarrow> string \<Rightarrow> request option" where
  "finish_request w s info etags =
     (let sign = signheader w s ''POST'' ''text/plain'' (Bucket info) (Key info);
          auth = auth_header s sign;
          url = ''http://'' @ Bucket info @ SUFFIX @ ''/'' @ Key info @ ''?uploadId=''
                  @ UploadId info @ ''&newKey='' @ Key info
      in case NewRequest w ''POST'' url etags of
           None \<Rightarrow> None
         | Some req \<Rightarrow>
             (let req = Header_Add ''Authorization'' auth req;
                  req = Header_Add ''Content-Length'' (Itoa (int (length etags))) req;
                  req = Header_Add ''Content-Type'' ''text/plain'' req
              in Some req))"

definition finish_result :: "world \<Rightarrow> string + response \<Rightarrow> error + finishResponse" where
  "finish_result w r =
     (case r of
        Inl e \<Rightarrow> Inl (TransportError e)
      | Inr resp \<Rightarrow>
          (case RespBody resp of
             Inl e \<Rightarrow> Inl (ReadError e)
           | Inr body \<Rightarrow>
               if StatusCode resp \<noteq> 200
               then Inl (Errorf (''finishMultipartUpload failed, '' @ body))
               else (case json_finish w body of
                       Inl e \<Rightarrow> Inl (UnmarshalError e)
                     | Inr res \<Rightarrow> Inr res)))"

definition finishMultipartUpload ::
  "world \<Rightarrow> UfileStorage \<Rightarrow> initResponse \<Rightarrow> string \<Rightarrow> calls
     \<Rightarrow> (panic + error + finishResponse) \<times> calls" where
  "finishMultipartUpload w s info etags cs =
     (case finish_request w s info etags of
        None \<Rightarrow> (Inl NilDereference, cs)
      | Some req \<Rightarrow>
          (case Do w OpFinish req cs of
             (r, cs') \<Rightarrow> (Inr (finish_result w r), cs')))"

subsection \<open>put\<close>

definition put_request :: "world \<Rightarrow> UfileStorage \<Rightarrow> string \<Rightarrow> string \<Rightarrow> request option" where
  "put_request w s content filename =
     (let sign = signheader w s ''PUT'' ''application/octet-stream'' (BucketName s) filename;
          auth = auth_header s sign;
          url = ''http://'' @ BucketName s @ SUFFIX @ ''/'' @ filename
      in case NewRequest w ''PUT'' url content of
           None \<Rightarrow> None
         | Some req \<Rightarrow>
             (let req = Header_Add ''Authorization'' auth req;
                  req = Header_Add ''Content-Type'' ''application/octet-stream'' req;
                  req = Header_Add ''Content-Length'' (Itoa (int (length content))) req
              in Some req))"

text \<open>
  Lines 172-183. The result is Go's \<open>error\<close>: \<open>None\<close> is \<open>nil\<close>. The body is read only when
  the status is not 200.
\<close>

definition put_result :: "string + response \<Rightarrow> error option" where
  "put_result r =
     (case r of
        Inl e \<Rightarrow> Some (TransportError e)
      | Inr resp \<Rightarrow>
          if StatusCode resp \<noteq> 200
          then (case RespBody resp of
                  Inl e \<Rightarrow> Some (ReadError e)
                | Inr body \<Rightarrow> Some (Errorf (''put file failed, '' @ body)))
          else None)"

definition put ::
  "world \<Rightarrow> UfileStorage \<Rightarrow> string \<Rightarrow> string \<Rightarrow> calls \<Rightarrow> (panic + error option) \<times> calls" where
  "put w s content filename cs =
     (case put_request w s content filename of
        None \<Rightarrow> (Inl NilDereference, cs)
      | Some req \<Rightarrow>
          (case Do w OpPut req cs of
             (r, cs') \<Rightarrow> (Inr (put_result r), cs')))"

subsection \<open>Save\<close>

text \<open>
  The multipart branch starts one goroutine per full-size part and waits for all of them.
  It is modelled as a transition system run by an explicit schedule. The main goroutine is
  at one of the program points \<open>pc\<close>; goroutine \<open>j\<close> (the value of the parameter \<open>j\<close> of the
  function literal) is \<open>Spawned\<close> by the \<open>go\<close> statement, has \<open>Sent\<close> its request once
  \<open>uploadPart\<close> has called \<open>client.Do\<close>, and is \<open>Finished\<close> after \<open>wg.Done\<close>; it is
  \<open>Blocked\<close> for ever when it sends on the full channel \<open>errChan\<close>, which has capacity 1 and
  no receiver. The shared variables are the loop variable \<open>i\<close> (one variable for the whole
  loop: the package predates per-iteration loop variables), the slice \<open>etags\<close>, \<open>errChan\<close>
  and the counter of the wait group. Each \<open>append\<close> to \<open>etags\<close> is taken to be atomic.
  \<open>calls\<close> are the requests handed to \<open>client.Do\<close> so far.
\<close>

datatype pc = Loop | Incr | Wait | Returned "error option" | Crashed panic

datatype worker = Spawned | Sent "string + response" | Blocked | Finished

record state =
  pc :: pc
  loop_i :: int
  workers :: "int \<Rightarrow> worker option"
  etags :: "string list"
  errChan :: "error option"
  wg :: int
  calls :: calls

datatype action = MainStep | StartPart int | FinishPart int

text \<open>The body of the goroutine up to the call of \<open>client.Do\<close> inside \<open>uploadPart\<close> (lines 203-204, 92-103).\<close>

definition start_part ::
  "world \<Rightarrow> UfileStorage \<Rightarrow> string \<Rightarrow> initResponse \<Rightarrow> int \<Rightarrow> state \<Rightarrow> state" where
  "start_part w s content initRes j st =
     (case workers st j of
        Some Spawned \<Rightarrow>
          (let lo = go_mul j (BlkSize initRes);
               hi = go_mul (go_add j 1) (BlkSize initRes)
           in if lo < 0 \<or> hi < lo \<or> int (length content) < hi
              then st\<lparr>pc := Crashed SliceOutOfRange\<rparr>
              else
                (let part = take (nat (hi - lo)) (drop (nat lo) content)
                 in case uploadPart_request w s part initRes (loop_i st) of
                      None \<Rightarrow> st\<lparr>pc := Crashed NilDereference\<rparr>
                    | Some req \<Rightarrow>
                        (case Do w OpPart req (calls st) of
                           (r, cs') \<Rightarrow> st\<lparr>calls := cs', workers := (workers st)(j \<mapsto> Sent r)\<rparr>)))
      | _ \<Rightarrow> st)"

text \<open>The rest of the goroutine: the result of \<open>uploadPart\<close>, then lines 205-209 and the deferred \<open>wg.Done\<close>.\<close>

definition finish_part :: "world \<Rightarrow> int \<Rightarrow> state \<Rightarrow> state" where
  "finish_part w j st =
     (case workers st j of
        Some (Sent r) \<Rightarrow>
          (case uploadPart_result w r of
             Inl err \<Rightarrow>
               (case errChan st of
                  None \<Rightarrow> st\<lparr>errChan := Some err, wg := wg st - 1,
                              workers := (workers st)(j \<mapsto> Finished)\<rparr>
                | Some _ \<Rightarrow> st\<lparr>workers := (workers st)(j \<mapsto> Blocked)\<rparr>)
           | Inr (_, etag) \<Rightarrow>
               st\<lparr>etags := etags st @ [etag], wg := wg st - 1,
                   workers := (workers st)(j \<mapsto> Finished)\<rparr>)
      | _ \<Rightarrow> st)"

text \<open>Lines 224-232.\<close>

definition finish_upload :: "world \<Rightarrow> UfileStorage \<Rightarrow> initResponse \<Rightarrow> state \<Rightarrow> state" where
  "finish_upload w s initRes st =
     (case finishMultipartUpload w s initRes (Join (etags st) '','') (calls st) of
        (Inl p, cs') \<Rightarrow> st\<lparr>calls := cs', pc := Crashed p\<rparr>
      | (Inr (Inl err), cs') \<Rightarrow> st\<lparr>calls := cs', pc := Returned (Some err)\<rparr>
      | (Inr (Inr res), cs') \<Rightarrow> st\<lparr>calls := cs', pc := Returned None\<rparr>)"

text \<open>Lines 215-223, then the finalisation: what the main goroutine does once \<open>wg.Wait\<close> has returned.\<close>

definition after_wait ::
  "world \<Rightarrow> UfileStorage \<Rightarrow> string \<Rightarrow> initResponse \<Rightarrow> int \<Rightarrow> state \<Rightarrow> state" where
  "after_wait w s content initRes num st =
     (if go_mul num (BlkSize initRes) < int (length content)
      then
        (let lo = go_mul num (BlkSize initRes)
         in if lo < 0 \<or> int (length content) < lo
            then st\<lparr>pc := Crashed SliceOutOfRange\<rparr>
            else
              (case uploadPart w s (drop (nat lo) content) initRes num (calls st) of
                 (Inl p, cs') \<Rightarrow> st\<lparr>calls := cs', pc := Crashed p\<rparr>
               | (Inr (Inl err), cs') \<Rightarrow> st\<lparr>calls := cs', pc := Returned (Some err)\<rparr>
               | (Inr (Inr (res, etag)), cs') \<Rightarrow>
                   finish_upload w s initRes (st\<lparr>calls := cs', etags := etags st @ [etag]\<rparr>)))
      else finish_upload w s initRes st)"

text \<open>One step of the main goroutine: the loop of lines 199-211, \<open>wg.Wait\<close>, and the rest.\<close>

definition main_step ::
  "world \<Rightarrow> UfileStorage \<Rightarrow> string \<Rightarrow> initResponse \<Rightarrow> int \<Rightarrow> state \<Rightarrow> state" where
  "main_step w s content initRes num st =
     (case pc st of
        Loop \<Rightarrow>
          if loop_i st < num
          then st\<lparr>wg := wg st + 1, workers := (workers st)(loop_i st \<mapsto> Spawned), pc := Incr\<rparr>
          else st\<lparr>pc := Wait\<rparr>
      | Incr \<Rightarrow> st\<lparr>loop_i := go_add (loop_i st) 1, pc := Loop\<rparr>
      | Wait \<Rightarrow> if wg st = 0 then after_wait w s content initRes num st else st
      | Returned r \<Rightarrow> st
      | Crashed p \<Rightarrow> st)"

text \<open>A panic ends the program; an action that is not enabled leaves the state as it is.\<close>

definition step ::
  "world \<Rightarrow> UfileStorage \<Rightarrow> string \<Rightarrow> initResponse \<Rightarrow> int \<Rightarrow> action \<Rightarrow> state \<Rightarrow> state" where
  "step w s content initRes num a st =
     (case pc st of
        Crashed p \<Rightarrow> st
      | _ \<Rightarrow>
        (case a of
           MainStep \<Rightarrow> main_step w s content initRes num st
         | StartPart j \<Rightarrow> start_part w s content initRes j st
         | FinishPart j \<Rightarrow> finish_part w j st))"

fun run ::
  "world \<Rightarrow> UfileStorage \<Rightarrow> string \<Rightarrow> initResponse \<Rightarrow> int \<Rightarrow> action list \<Rightarrow> state \<Rightarrow> state" where
  "run w s content initRes num [] st = st"
| "run w s content initRes num (a # as) st =
     run w s content initRes num as (step w s content initRes num a st)"

definition start_state :: "calls \<Rightarrow> state" where
  "start_state cs =
     \<lparr>pc = Loop, loop_i = 0, workers = Map.empty, etags = [], errChan = None, wg = 0, calls = cs\<rparr>"

text \<open>
  \<open>Save\<close> under the schedule \<open>sched\<close> of its goroutines, which the single-shot branch does
  not consult. The result is the state when the schedule ends: \<open>pc\<close> is \<open>Returned r\<close> when
  \<open>Save\<close> has returned \<open>r\<close> and \<open>Crashed p\<close> when it has panicked, and \<open>calls\<close> are the
  requests made.
\<close>

definition Save :: "world \<Rightarrow> UfileStorage \<Rightarrow> action list \<Rightarrow> string \<Rightarrow> string \<Rightarrow> state" where
  "Save w s sched content filename =
     (let size = int (length content)
      in if size > MAX_PUT_SIZE
         then
           (case initiateMultipartUpload w s filename [] of
              (Inl p, cs) \<Rightarrow> (start_state cs)\<lparr>pc := Crashed p\<rparr>
            | (Inr (Inl err), cs) \<Rightarrow> (start_state cs)\<lparr>pc := Returned (Some err)\<rparr>
            | (Inr (Inr initRes), cs) \<Rightarrow>
                if BlkSize initRes = 0
                then (start_state cs)\<lparr>pc := Crashed DivideByZero\<rparr>
                else run w s content initRes (go_quot size (BlkSize initRes)) sched (start_state cs))
         else
           (case put w s content filename [] of
              (Inl p, cs) \<Rightarrow> (start_state cs)\<lparr>pc := Crashed p\<rparr>
            | (Inr r, cs) \<Rightarrow> (start_state cs)\<lparr>pc := Returned r\<rparr>))"

text \<open>No action changes the state any more, and \<open>Save\<close> has not returned.\<close>

definition stuck ::
  "world \<Rightarrow> UfileStorage \<Rightarrow> string \<Rightarrow> initResponse \<Rightarrow> int \<Rightarrow> state \<Rightarrow> bool" where
  "stuck w s content initRes num st =
     (pc st = Wait \<and> (\<forall>a. step w s content initRes num a st = st))"

subsection \<open>Invariants of the multipart branch\<close>

text \<open>
  While \<open>Save\<close> runs with \<open>num\<close> full-size parts, the loop variable stays within
  \<open>0..num\<close>, every goroutine has a parameter \<open>j\<close> within \<open>0..<num\<close>, and the only panic
  that can have happened is the one on a \<open>nil\<close> request.
\<close>

definition safe_inv :: "int \<Rightarrow> state \<Rightarrow> bool" where
  "safe_inv num st =
     (0 \<le> loop_i st \<and> loop_i st \<le> num \<and> (pc st = Incr \<longrightarrow> loop_i st < num)
      \<and> (\<forall>j. workers st j \<noteq> None \<longrightarrow> 0 \<le> j \<and> j < num)
      \<and> (\<forall>p. pc st = Crashed p \<longrightarrow> p = NilDereference))"

text \<open>
  With a quotient \<open>num\<close> that is not positive the loop body never runs: no goroutine exists,
  the loop variable and the counter of the wait group stay 0.
\<close>

definition idle_inv :: "state \<Rightarrow> bool" where
  "idle_inv st =
     (loop_i st = 0 \<and> wg st = 0 \<and> workers st = Map.empty \<and> pc st \<noteq> Incr
      \<and> (\<forall>p. pc st = Crashed p \<longrightarrow> p = NilDereference))"

text \<open>
  The requests made after the first ones \<open>cs\<close> are the finalisation or part uploads whose
  \<open>Content-Length\<close> is the block size of the session.
\<close>

definition part_call :: "initResponse \<Rightarrow> op \<times> request \<Rightarrow> bool" where
  "part_call initRes c =
     (fst c = OpFinish \<or>
      fst c = OpPart \<and> Header_Get (Header (snd c)) ''Content-Length'' = Itoa (BlkSize initRes))"

definition calls_inv :: "initResponse \<Rightarrow> calls \<Rightarrow> state \<Rightarrow> bool" where
  "calls_inv initRes cs st =
     (\<exists>rest. calls st = cs @ rest \<and> (\<forall>c \<in> set rest. part_call initRes c))"

text \<open>
  For the parts themselves: a goroutine has \<open>started\<close> once it has sent its request, and is
  \<open>pending\<close> until its \<open>wg.Done\<close>. \<open>full_part j\<close> is the byte range
  \<open>[j*blockSize, (j+1)*blockSize)\<close> of the payload; \<open>part_requests\<close> are the requests of
  \<open>uploadPart\<close> in the order they were made; \<open>remainder_requests\<close> is the request for the
  bytes after the last full block, as part number \<open>num\<close>, when the size is not a multiple of
  the block size. \<open>part_inv\<close>: the wait group counts the pending goroutines, the goroutines
  spawned are those of the loop indices passed, the bodies sent so far are the blocks of the
  goroutines that have started, and once \<open>Save\<close> has returned the requests are those of all
  \<open>num\<close> blocks, in some order, followed by the remainder.
\<close>

fun is_started :: "worker option \<Rightarrow> bool" where
  "is_started (Some (Sent r)) = True"
| "is_started (Some Finished) = True"
| "is_started (Some Blocked) = True"
| "is_started _ = False"

fun is_pending :: "worker option \<Rightarrow> bool" where
  "is_pending (Some Spawned) = True"
| "is_pending (Some (Sent r)) = True"
| "is_pending (Some Blocked) = True"
| "is_pending _ = False"

definition full_part :: "string \<Rightarrow> initResponse \<Rightarrow> int \<Rightarrow> string" where
  "full_part content initRes j =
     take (nat (BlkSize initRes)) (drop (nat (j * BlkSize initRes)) content)"

definition part_requests :: "state \<Rightarrow> request list" where
  "part_requests st = map snd (filter (\<lambda>c. fst c = OpPart) (calls st))"

definition remainder_requests ::
  "world \<Rightarrow> UfileStorage \<Rightarrow> string \<Rightarrow> initResponse \<Rightarrow> int \<Rightarrow> request list" where
  "remainder_requests w s content initRes num =
     (if int (length content) mod BlkSize initRes \<noteq> 0
      then (case uploadPart_request w s (drop (nat (num * BlkSize initRes)) content) initRes num of
              None \<Rightarrow> []
            | Some req \<Rightarrow> [req])
      else [])"

definition pending :: "state \<Rightarrow> int set" where
  "pending st = {j. is_pending (workers st j)}"

definition started :: "state \<Rightarrow> int set" where
  "started st = {j. is_started (workers st j)}"

definition part_inv ::
  "world \<Rightarrow> UfileStorage \<Rightarrow> string \<Rightarrow> initResponse \<Rightarrow> int \<Rightarrow> state \<Rightarrow> bool" where
  "part_inv w s content initRes num st =
     (wg st = int (card (pending st))
      \<and> (pc st = Loop \<longrightarrow> dom (workers st) = {0..<loop_i st})
      \<and> (pc st = Incr \<longrightarrow> dom (workers st) = {0..loop_i st})
      \<and> (pc st = Wait \<longrightarrow> dom (workers st) = {0..<num})
      \<and> (pc st = Loop \<or> pc st = Incr \<or> pc st = Wait \<longrightarrow>
            mset (map ReqBody (part_requests st))
              = image_mset (full_part content initRes) (mset_set (started st)))
      \<and> (\<forall>r. pc st = Returned r \<longrightarrow>
            pending st = {} \<and>
            (int (length content) mod BlkSize initRes \<noteq> 0 \<longrightarrow>
               uploadPart_request w s (drop (nat (num * BlkSize initRes)) content) initRes num \<noteq> None) \<and>
            (\<exists>full. part_requests st = full @ remainder_requests w s content initRes num
               \<and> mset (map ReqBody full)
                   = image_mset (full_part content initRes) (mset_set {0..<num}))))"

section \<open>The configuration reader (package rrconfig)\<close>

text \<open>
  The values \<open>json.Unmarshal\<close> stores in an \<open>interface{}\<close>: \<open>nil\<close>, \<open>bool\<close>, \<open>float64\<close>,
  \<open>string\<close>, \<open>[]interface{}\<close> and \<open>map[string]interface{}\<close>. A map is an association
  list read with \<open>map_of\<close>.
\<close>

typedecl float64

datatype json =
    JNull
  | JBool bool
  | JNumber float64
  | JString string
  | JArray "json list"
  | JObject "(string \<times> json) list"

record JsonConfig =
  m :: "(string \<times> json) list"
  rb :: string

text \<open>\<open>strings.Split\<close> at a one-byte separator: the empty string yields one empty component.\<close>

fun Split :: "string \<Rightarrow> char \<Rightarrow> string list" where
  "Split [] sep = [[]]"
| "Split (c # cs) sep =
     (if c = sep then [] # Split cs sep
      else (case Split cs sep of
              [] \<Rightarrow> [[c]]
            | x # xs \<Rightarrow> (c # x) # xs))"

text \<open>The loop of \<open>Get\<close> over the components that are left, from the current map.\<close>

fun Get_loop :: "(string \<times> json) list \<Rightarrow> string \<Rightarrow> string list \<Rightarrow> error + json" where
  "Get_loop cur key [] = Inr (JObject cur)"
| "Get_loop cur key (n # ns) =
     (case map_of cur n of
        Some v \<Rightarrow>
          (case v of
             JObject vv \<Rightarrow> Get_loop vv key ns
           | _ \<Rightarrow> Inr v)
      | None \<Rightarrow> Inl (Errorf (''no value for key '' @ key)))"

definition Get :: "JsonConfig \<Rightarrow> string \<Rightarrow> error + json" where
  "Get s key = Get_loop (m s) key (Split key (CHR ''.''))"

text \<open>
  The value a document holds at a path of keys, by the structure of the document alone:
  the document itself at the empty path; below an object, the value its member of that name
  holds at the rest of the path; nothing where the member is absent, and nothing below a
  value that is not an object.
\<close>

fun value_at :: "json \<Rightarrow> string list \<Rightarrow> json option" where
  "value_at v [] = Some v"
| "value_at (JObject kvs) (n # ns) =
     (case map_of kvs n of
        None \<Rightarrow> None
      | Some v \<Rightarrow> value_at v ns)"
| "value_at v (n # ns) = None"

section \<open>A test double of the remote service\<close>

text \<open>
  A server that answers every request with 200, except the PUT requests whose part number
  is listed in \<open>failing\<close>, which get 500. The \<open>ETag\<close> of an answer is \<open>etag\<close> followed by
  what the URL of the request has after its last \<open>=\<close>, for a part upload its part number.
  Of the checks of \<open>url.Parse\<close> the double has one: a \<open>%\<close> must be followed by two
  hexadecimal digits. The session it opens has a block size of 25 MiB; the payload is one
  byte more than 50 MiB: 25 MiB of \<open>a\<close>, 25 MiB of \<open>b\<close> and one \<open>c\<close>.
\<close>

definition demo_storage :: UfileStorage where
  "demo_storage = \<lparr>PublicKey = ''pub'', PrivateKey = ''pri'', BucketName = ''b''\<rparr>"

definition demo_session :: initResponse where
  "demo_session = \<lparr>UploadId = ''u'', BlkSize = 26214400, Bucket = ''b'', Key = ''k''\<rparr>"

definition url_tail :: "string \<Rightarrow> string" where
  "url_tail url = rev (takeWhile (\<lambda>c. c \<noteq> CHR ''='') (rev url))"

definition is_hex :: "char \<Rightarrow> bool" where
  "is_hex c = (c \<in> set ''0123456789abcdefABCDEF'')"

fun valid_escapes :: "string \<Rightarrow> bool" where
  "valid_escapes [] = True"
| "valid_escapes (c # cs) =
     ((if c = CHR ''%''
       then (case cs of a # b # rest \<Rightarrow> is_hex a \<and> is_hex b | _ \<Rightarrow> False)
       else True)
      \<and> valid_escapes cs)"

definition demo_world :: "string list \<Rightarrow> world" where
  "demo_world failing =
     \<lparr>client_do = (\<lambda>n req. Inr \<lparr>StatusCode = (if Method req = ''PUT'' \<and> url_tail (URL req) \<in> set failing then 500 else 200),
                                  RespHeader = [(''ETag'', ''etag'' @ url_tail (URL req))],
                                  RespBody = Inr ''{}''\<rparr>),
      url_parses = valid_escapes,
      hmac_sha1 = (\<lambda>k d. d),
      base64 = (\<lambda>x. x),
      json_init = (\<lambda>b. Inr demo_session),
      json_upload = (\<lambda>b. Inr \<lparr>PartNumber = 0\<rparr>),
      json_finish = (\<lambda>b. Inr \<lparr>FBucket = ''b'', FKey = ''k'', FileSize = 52428801\<rparr>)\<rparr>"

definition demo_payload :: string where
  "demo_payload = replicate 26214400 (CHR ''a'') @ replicate 26214400 (CHR ''b'') @ ''c''"

text \<open>The same service, opening a session whose block size is 0, or \<open>-26214400\<close>.\<close>

definition zero_block_world :: world where
  "zero_block_world = (demo_world [])\<lparr>json_init := (\<lambda>b. Inr (demo_session\<lparr>BlkSize := 0\<rparr>))\<rparr>"

definition negative_block_world :: world where
  "negative_block_world =
     (demo_world [])\<lparr>json_init := (\<lambda>b. Inr (demo_session\<lparr>BlkSize := - 26214400\<rparr>))\<rparr>"

text \<open>A service that gives the same outcome \<open>r\<close> to every call of \<open>client.Do\<close>.\<close>

definition reply_world :: "string + response \<Rightarrow> world" where
  "reply_world r = (demo_world [])\<lparr>client_do := (\<lambda>n req. r)\<rparr>"

text \<open>The configuration \<open>{"a": {"b": "s"}, "n": null}\<close>.\<close>

definition demo_config :: JsonConfig where
  "demo_config = \<lparr>m = [(''a'', JObject [(''b'', JString ''s'')]), (''n'', JNull)], rb = []\<rparr>"

section \<open>Evaluation of the test double\<close>

lemmas demo_defs = demo_world_def demo_storage_def demo_session_def demo_payload_def url_tail_def
  is_hex_def

lemmas req_defs = initiate_request_def uploadPart_request_def finish_request_def put_request_def
  NewRequest_def Header_Add_def Header_Get_def signheader_def sign_data_def auth_header_def
  SUFFIX_def Itoa_def utoa.simps Do_def

lemmas op_defs = initiateMultipartUpload_def initiate_result_def uploadPart_def
  uploadPart_result_def finishMultipartUpload_def finish_result_def put_def put_result_def

lemmas run_defs = Save_def start_state_def step_def main_step_def start_part_def finish_part_def
  after_wait_def finish_upload_def MAX_PUT_SIZE_def go_quot_def go_mul_def go_add_def wrap64_def

lemma demo_length: "int (length demo_payload) = 52428801"
  by (simp add: demo_payload_def)

lemma demo_initiate:
  "fst (initiateMultipartUpload (demo_world fs) demo_storage ''f'' []) = Inr (Inr demo_session)"
  by (simp add: demo_defs req_defs op_defs)

lemma zero_initiate:
  "fst (initiateMultipartUpload zero_block_world demo_storage ''f'' [])
     = Inr (Inr (demo_session\<lparr>BlkSize := 0\<rparr>))"
  by (simp add: zero_block_world_def demo_defs req_defs op_defs)

lemma negative_initiate:
  "fst (initiateMultipartUpload negative_block_world demo_storage ''f'' [])
     = Inr (Inr (demo_session\<lparr>BlkSize := - 26214400\<rparr>))"
  by (simp add: negative_block_world_def demo_defs req_defs op_defs)

section \<open>The signer\<close>

text \<open>
  C7. The token is the base64 encoding of the HMAC, keyed by the private key, of the five
  lines method, an empty Content-MD5 line, content type, an empty Date line and
  \<open>/bucket/key\<close>, joined by newlines. It depends on the storage value through the private
  key only: two storage values with the same private key get the same token for the same
  method, content type, bucket and key.
\<close>

theorem signheader_canonical:
  "signheader w s method ctype bucket filename =
     base64 w (hmac_sha1 w (PrivateKey s)
       (Join [method, [], ctype, [], ''/'' @ bucket @ ''/'' @ filename] ''\<newline>''))
   \<and> (PrivateKey s' = PrivateKey s \<longrightarrow>
        signheader w s' method ctype bucket filename = signheader w s method ctype bucket filename)"
  by (simp add: signheader_def sign_data_def)

text \<open>With the identity in place of the HMAC and of base64, the token is the canonical string itself.\<close>

theorem signheader_canonical_witness:
  "PrivateKey (demo_storage\<lparr>PublicKey := ''other'', BucketName := ''c''\<rparr>) = PrivateKey demo_storage
   \<and> signheader (demo_world []) (demo_storage\<lparr>PublicKey := ''other'', BucketName := ''c''\<rparr>)
        ''PUT'' ''text/plain'' ''b'' ''f''
      = signheader (demo_world []) demo_storage ''PUT'' ''text/plain'' ''b'' ''f''
   \<and> signheader (demo_world []) demo_storage ''PUT'' ''text/plain'' ''b'' ''f''
      = ''PUT\<newline>\<newline>text/plain\<newline>\<newline>/b/f''"
  using signheader_canonical [of "demo_world []" demo_storage "''PUT''" "''text/plain''" "''b''" "''f''"
      "demo_storage\<lparr>PublicKey := ''other'', BucketName := ''c''\<rparr>"]
  by (simp add: demo_world_def demo_storage_def)

section \<open>The single-shot upload\<close>

lemma put_cases:
  "(put_request w s content filename = None
      \<and> put w s content filename cs = (Inl NilDereference, cs))
   \<or> (\<exists>req. put_request w s content filename = Some req
         \<and> put w s content filename cs
             = (Inr (put_result (client_do w (length cs) req)), cs @ [(OpPut, req)]))"
  by (cases "put_request w s content filename") (simp_all add: put_def Do_def)

text \<open>
  C9, as the code has it. \<open>put\<close> succeeds exactly when a response was obtained and its status
  is 200. For any other status the body is read: when that succeeds the error is
  \<open>put file failed, \<close> followed by the body, unchanged; when reading fails the error of
  \<open>ioutil.ReadAll\<close> is returned as it is. When \<open>client.Do\<close> obtains no response, its error is
  returned as it is, a value different from every error built by \<open>fmt.Errorf\<close>. Here
  \<open>req\<close> is the request \<open>put\<close> has built and \<open>length cs\<close> the number of the call.
\<close>

theorem put_outcome:
  "(fst (put w s content filename cs) = Inr None \<longleftrightarrow>
      (\<exists>req resp. put_request w s content filename = Some req
          \<and> client_do w (length cs) req = Inr resp \<and> StatusCode resp = 200))
   \<and> (\<forall>req resp body. put_request w s content filename = Some req
          \<and> client_do w (length cs) req = Inr resp
          \<and> StatusCode resp \<noteq> 200 \<and> RespBody resp = Inr body
        \<longrightarrow> fst (put w s content filename cs) = Inr (Some (Errorf (''put file failed, '' @ body))))
   \<and> (\<forall>req resp e. put_request w s content filename = Some req
          \<and> client_do w (length cs) req = Inr resp
          \<and> StatusCode resp \<noteq> 200 \<and> RespBody resp = Inl e
        \<longrightarrow> fst (put w s content filename cs) = Inr (Some (ReadError e)))
   \<and> (\<forall>req e. put_request w s content filename = Some req
          \<and> client_do w (length cs) req = Inl e
        \<longrightarrow> fst (put w s content filename cs) = Inr (Some (TransportError e)))"
proof -
  show ?thesis
  proof (cases "put_request w s content filename")
    case None
    then show ?thesis by (simp add: put_def)
  next
    case (Some req)
    then have "fst (put w s content filename cs) = Inr (put_result (client_do w (length cs) req))"
      by (simp add: put_def Do_def)
    then show ?thesis using Some
      by (auto simp: put_result_def split: sum.splits)
  qed
qed

text \<open>
  The claim as written fails where the status is 500 and the body cannot be read: the one
  request is answered with that response, and the error returned is the read failure, which
  carries no response body.
\<close>

theorem put_read_failure_counterexample:
  "map (\<lambda>c. (fst c, client_do (reply_world (Inr \<lparr>StatusCode = 500, RespHeader = [], RespBody = Inl ''unexpected EOF''\<rparr>)) 0 (snd c)))
      (snd (put (reply_world (Inr \<lparr>StatusCode = 500, RespHeader = [], RespBody = Inl ''unexpected EOF''\<rparr>))
         demo_storage ''abc'' ''f'' []))
     = [(OpPut, Inr \<lparr>StatusCode = 500, RespHeader = [], RespBody = Inl ''unexpected EOF''\<rparr>)]
   \<and> fst (put (reply_world (Inr \<lparr>StatusCode = 500, RespHeader = [], RespBody = Inl ''unexpected EOF''\<rparr>))
        demo_storage ''abc'' ''f'' []) = Inr (Some (ReadError ''unexpected EOF''))"
  by (simp add: reply_world_def demo_defs req_defs op_defs)

lemma reply_put_request:
  "put_request (reply_world r) demo_storage ''abc'' ''f'' \<noteq> None"
  by (simp add: reply_world_def demo_defs req_defs)

text \<open>The four outcomes of \<open>put\<close>, each at a service that produces it.\<close>

theorem put_outcome_witness:
  "fst (put (reply_world (Inr \<lparr>StatusCode = 200, RespHeader = [], RespBody = Inr ''ok''\<rparr>)) demo_storage ''abc'' ''f'' [])
       = Inr None
   \<and> fst (put (reply_world (Inr \<lparr>StatusCode = 404, RespHeader = [], RespBody = Inr ''no such bucket''\<rparr>)) demo_storage ''abc'' ''f'' [])
       = Inr (Some (Errorf ''put file failed, no such bucket''))
   \<and> fst (put (reply_world (Inr \<lparr>StatusCode = 500, RespHeader = [], RespBody = Inl ''unexpected EOF''\<rparr>)) demo_storage ''abc'' ''f'' [])
       = Inr (Some (ReadError ''unexpected EOF''))
   \<and> fst (put (reply_world (Inl ''connection refused'')) demo_storage ''abc'' ''f'' [])
       = Inr (Some (TransportError ''connection refused''))"
proof -
  have r: "client_do (reply_world r) n req = r" for r n req
    by (simp add: reply_world_def)
  show ?thesis
    using put_outcome [of "reply_world (Inr \<lparr>StatusCode = 200, RespHeader = [], RespBody = Inr ''ok''\<rparr>)" demo_storage "''abc''" "''f''" "[]"]
      put_outcome [of "reply_world (Inr \<lparr>StatusCode = 404, RespHeader = [], RespBody = Inr ''no such bucket''\<rparr>)" demo_storage "''abc''" "''f''" "[]"]
      put_outcome [of "reply_world (Inr \<lparr>StatusCode = 500, RespHeader = [], RespBody = Inl ''unexpected EOF''\<rparr>)" demo_storage "''abc''" "''f''" "[]"]
      put_outcome [of "reply_world (Inl ''connection refused'')" demo_storage "''abc''" "''f''" "[]"]
      reply_put_request
    by (auto simp: r)
qed

section \<open>Dotted keys in the configuration reader\<close>

lemma Get_loop_non_object:
  "pre \<noteq> [] \<Longrightarrow> value_at (JObject cur) pre = Some v \<Longrightarrow> (\<forall>vv. v \<noteq> JObject vv)
     \<Longrightarrow> Get_loop cur key (pre @ rest) = Inr v"
proof (induction pre arbitrary: cur)
  case Nil
  then show ?case by simp
next
  case (Cons n pre)
  from Cons.prems(2) obtain v' where v': "map_of cur n = Some v'" "value_at v' pre = Some v"
    by (auto split: option.splits)
  show ?case
  proof (cases pre)
    case Nil
    then have "v' = v" using v' by simp
    then show ?thesis using v' Cons.prems(3) by (cases v) auto
  next
    case (Cons n' pre')
    then obtain vv where vv: "v' = JObject vv" using v' by (cases v') auto
    have "Get_loop vv key (pre @ rest) = Inr v"
      using Cons.IH[of vv] Cons v' vv Cons.prems(3) by simp
    then show ?thesis using v' vv by simp
  qed
qed

lemma Get_loop_absent:
  "value_at (JObject cur) pre = Some (JObject cur') \<Longrightarrow> map_of cur' n = None
     \<Longrightarrow> Get_loop cur key (pre @ n # rest) = Inl (Errorf (''no value for key '' @ key))"
proof (induction pre arbitrary: cur)
  case Nil
  then show ?case by simp
next
  case (Cons a pre)
  from Cons.prems(1) obtain v' where v': "map_of cur a = Some v'" "value_at v' pre = Some (JObject cur')"
    by (auto split: option.splits)
  obtain vv where vv: "v' = JObject vv"
    using v'(2) by (cases pre; cases v') auto
  show ?case using Cons.IH[of vv] v' vv Cons.prems(2) by simp
qed

lemma Get_loop_error:
  "Get_loop cur key ns = Inl e \<Longrightarrow>
     e = Errorf (''no value for key '' @ key) \<and>
     (\<exists>pre n rest cur'. ns = pre @ n # rest \<and> value_at (JObject cur) pre = Some (JObject cur')
         \<and> map_of cur' n = None)"
proof (induction cur key ns rule: Get_loop.induct)
  case (1 cur key)
  then show ?case by simp
next
  case (2 cur key n ns)
  show ?case
  proof (cases "map_of cur n")
    case None
    with 2 have "e = Errorf (''no value for key '' @ key)" by simp
    moreover have "n # ns = [] @ n # ns \<and> value_at (JObject cur) [] = Some (JObject cur)
        \<and> map_of cur n = None"
      using None by simp
    ultimately show ?thesis by blast
  next
    case (Some v)
    show ?thesis
    proof (cases v)
      case (JObject vv)
      with 2 Some have "Get_loop vv key ns = Inl e" by simp
      from "2.IH"[OF Some JObject this] obtain pre n' rest cur' where
        e: "e = Errorf (''no value for key '' @ key)" and
        h: "ns = pre @ n' # rest" "value_at (JObject vv) pre = Some (JObject cur')"
           "map_of cur' n' = None"
        by blast
      have "n # ns = (n # pre) @ n' # rest
          \<and> value_at (JObject cur) (n # pre) = Some (JObject cur')
          \<and> map_of cur' n' = None"
        using h Some JObject by simp
      with e show ?thesis by blast
    qed (use 2 Some in auto)
  qed
qed

text \<open>
  C10. The document is the object \<open>JObject (m s)\<close>, and \<open>value_at\<close> reads it without
  reference to \<open>Get\<close>. Let the components of the dotted key be \<open>pre\<close> followed by \<open>rest\<close>,
  with \<open>pre\<close> not empty. If the document holds at the path \<open>pre\<close> a value that is not an
  object, \<open>Get\<close> returns that value without an error, whatever \<open>rest\<close> is. If \<open>Get\<close>
  returns an error, it is \<open>no value for key\<close> with the whole key, and some component is
  absent from the object that the document holds at the path before it; and whenever a
  component is absent from that object, \<open>Get\<close> returns this error.
\<close>

theorem Get_stops_at_non_object:
  "(Split key (CHR ''.'') = pre @ rest \<and> pre \<noteq> []
      \<and> value_at (JObject (m s)) pre = Some v \<and> (\<forall>vv. v \<noteq> JObject vv)
     \<longrightarrow> Get s key = Inr v)
   \<and> (Get s key = Inl e
     \<longrightarrow> e = Errorf (''no value for key '' @ key)
         \<and> (\<exists>pre n rest cur. Split key (CHR ''.'') = pre @ n # rest
               \<and> value_at (JObject (m s)) pre = Some (JObject cur) \<and> map_of cur n = None))
   \<and> (Split key (CHR ''.'') = pre @ n # rest
      \<and> value_at (JObject (m s)) pre = Some (JObject cur) \<and> map_of cur n = None
     \<longrightarrow> Get s key = Inl (Errorf (''no value for key '' @ key)))"
proof (intro conjI impI)
  assume "Split key (CHR ''.'') = pre @ rest \<and> pre \<noteq> []
      \<and> value_at (JObject (m s)) pre = Some v \<and> (\<forall>vv. v \<noteq> JObject vv)"
  then show "Get s key = Inr v"
    by (simp add: Get_def Get_loop_non_object)
next
  assume "Get s key = Inl e"
  then have "Get_loop (m s) key (Split key (CHR ''.'')) = Inl e" by (simp add: Get_def)
  from Get_loop_error[OF this]
  show "e = Errorf (''no value for key '' @ key)"
    and "\<exists>pre n rest cur. Split key (CHR ''.'') = pre @ n # rest
               \<and> value_at (JObject (m s)) pre = Some (JObject cur) \<and> map_of cur n = None"
    by blast+
next
  assume "Split key (CHR ''.'') = pre @ n # rest
      \<and> value_at (JObject (m s)) pre = Some (JObject cur) \<and> map_of cur n = None"
  then show "Get s key = Inl (Errorf (''no value for key '' @ key))"
    by (simp add: Get_def Get_loop_absent)
qed

text \<open>
  In \<open>{"a": {"b": "s"}, "n": null}\<close> the path \<open>a.b\<close> holds the string \<open>s\<close>, which
  \<open>Get("a.b.c")\<close> returns, and the path \<open>n\<close> holds \<open>null\<close>, which \<open>Get("n.x.y")\<close> returns;
  \<open>Get("a.x")\<close> is an error, \<open>x\<close> being absent from the object at \<open>a\<close>.
\<close>

theorem Get_stops_at_non_object_witness:
  "Split ''a.b.c'' (CHR ''.'') = [''a'', ''b''] @ [''c'']
   \<and> value_at (JObject (m demo_config)) [''a'', ''b''] = Some (JString ''s'')
   \<and> Get demo_config ''a.b.c'' = Inr (JString ''s'')
   \<and> Split ''n.x.y'' (CHR ''.'') = [''n''] @ [''x'', ''y'']
   \<and> value_at (JObject (m demo_config)) [''n''] = Some JNull
   \<and> Get demo_config ''n.x.y'' = Inr JNull
   \<and> Split ''a.x'' (CHR ''.'') = [''a''] @ ''x'' # []
   \<and> value_at (JObject (m demo_config)) [''a''] = Some (JObject [(''b'', JString ''s'')])
   \<and> map_of [(''b'', JString ''s'')] ''x'' = None
   \<and> Get demo_config ''a.x'' = Inl (Errorf ''no value for key a.x'')"
proof -
  have s1: "Split ''a.b.c'' (CHR ''.'') = [''a'', ''b''] @ [''c'']"
    and s2: "Split ''n.x.y'' (CHR ''.'') = [''n''] @ [''x'', ''y'']"
    and s3: "Split ''a.x'' (CHR ''.'') = [''a''] @ ''x'' # []"
    by simp_all
  have v1: "value_at (JObject (m demo_config)) [''a'', ''b''] = Some (JString ''s'')"
    and v2: "value_at (JObject (m demo_config)) [''n''] = Some JNull"
    and v3: "value_at (JObject (m demo_config)) [''a''] = Some (JObject [(''b'', JString ''s'')])"
    by (simp_all add: demo_config_def)
  have a: "map_of [(''b'', JString ''s'')] ''x'' = None" by simp
  have g1: "Get demo_config ''a.b.c'' = Inr (JString ''s'')"
    using Get_stops_at_non_object [of "''a.b.c''" "[''a'', ''b'']" "[''c'']" demo_config "JString ''s''"]
      s1 v1 by simp
  have g2: "Get demo_config ''n.x.y'' = Inr JNull"
    using Get_stops_at_non_object [of "''n.x.y''" "[''n'']" "[''x'', ''y'']" demo_config JNull]
      s2 v2 by simp
  have g3: "Get demo_config ''a.x'' = Inl (Errorf ''no value for key a.x'')"
    using Get_stops_at_non_object [of "''a.x''" "[''a'']" "[]" demo_config JNull
        "Errorf ''no value for key a.x''" "''x''" "[(''b'', JString ''s'')]"]
      s3 v3 a by simp
  show ?thesis using s1 s2 s3 v1 v2 v3 a g1 g2 g3 by simp
qed

section \<open>The arithmetic of the partition\<close>

lemma wrap64_id: "- (2 ^ 63) \<le> x \<Longrightarrow> x < 2 ^ 63 \<Longrightarrow> wrap64 x = x"
  by (simp add: wrap64_def)

lemma div_mult_le: "0 < (b::int) \<Longrightarrow> (a div b) * b \<le> a"
proof -
  assume b: "0 < b"
  have "a div b * b + a mod b = a" by (rule div_mult_mod_eq)
  moreover have "0 \<le> a mod b" using b by (rule pos_mod_sign)
  ultimately show ?thesis by linarith
qed

lemma div_le_self: "0 \<le> (a::int) \<Longrightarrow> 0 < b \<Longrightarrow> a div b \<le> a"
proof -
  assume a: "0 \<le> a" and b: "0 < b"
  have d: "0 \<le> a div b" using a b by (simp add: pos_imp_zdiv_nonneg_iff)
  have "1 \<le> b" using b by simp
  then have "a div b * 1 \<le> a div b * b" using d by (rule mult_left_mono)
  also have "\<dots> \<le> a" using b by (rule div_mult_le)
  finally show ?thesis by simp
qed

lemma go_quot_pos:
  assumes "0 \<le> a" "a < 2 ^ 63" "0 < b"
  shows "go_quot a b = a div b"
proof -
  have d: "0 \<le> a div b" using assms by (simp add: pos_imp_zdiv_nonneg_iff)
  have "a div b \<le> a" using assms by (simp add: div_le_self)
  then have lt: "a div b < 2 ^ 63" using assms by linarith
  have "sgn a * sgn b * (\<bar>a\<bar> div \<bar>b\<bar>) = a div b"
    using assms by (cases "a = 0") (simp_all add: sgn_if)
  then show ?thesis using d lt by (simp add: go_quot_def wrap64_id)
qed

lemma part_bounds:
  assumes "0 \<le> (a::int)" "0 < b" "0 \<le> j" "j < a div b"
  shows "0 \<le> j * b" "j * b \<le> (j + 1) * b" "(j + 1) * b \<le> a"
proof -
  have b0: "0 \<le> b" using assms by simp
  show "0 \<le> j * b" using assms(3) b0 by (rule mult_nonneg_nonneg)
  show "j * b \<le> (j + 1) * b" using b0 by (simp add: distrib_right)
  have "j + 1 \<le> a div b" using assms by simp
  then have "(j + 1) * b \<le> (a div b) * b" using b0 by (rule mult_right_mono)
  also have "\<dots> \<le> a" using assms(2) by (rule div_mult_le)
  finally show "(j + 1) * b \<le> a" .
qed

lemma last_bounds:
  assumes "0 \<le> a" "0 < (b::int)"
  shows "0 \<le> (a div b) * b" "(a div b) * b \<le> a"
proof -
  have "0 \<le> a div b" using assms by (simp add: pos_imp_zdiv_nonneg_iff)
  then show "0 \<le> (a div b) * b" using assms by simp
  show "(a div b) * b \<le> a" using assms(2) by (rule div_mult_le)
qed

lemma go_quot_neg:
  assumes "0 \<le> a" "a < 2 ^ 63" "b < 0"
  shows "go_quot a b = - (a div (- b))"
proof -
  have d: "0 \<le> a div (- b)" using assms by (simp add: pos_imp_zdiv_nonneg_iff)
  have "a div (- b) \<le> a" using assms by (simp add: div_le_self)
  then have lt: "a div (- b) < 2 ^ 63" using assms by linarith
  have "sgn a * sgn b * (\<bar>a\<bar> div \<bar>b\<bar>) = - (a div (- b))"
    using assms by (cases "a = 0") (simp_all add: sgn_if)
  then show ?thesis using d lt by (simp add: go_quot_def wrap64_id)
qed

lemma neg_last_bounds:
  assumes "0 \<le> a" "(b::int) < 0"
  shows "0 \<le> - (a div (- b)) * b" "- (a div (- b)) * b \<le> a"
proof -
  have e: "- (a div (- b)) * b = (a div (- b)) * (- b)" by simp
  show "0 \<le> - (a div (- b)) * b" "- (a div (- b)) * b \<le> a"
    unfolding e using last_bounds[of a "- b"] assms by simp_all
qed

section \<open>Every run of the multipart branch\<close>

lemma run_invariant:
  assumes "P st" and "\<And>a st. P st \<Longrightarrow> P (step w s content initRes num a st)"
  shows "P (run w s content initRes num sched st)"
  using assms(1)
proof (induction sched arbitrary: st)
  case Nil
  then show ?case by simp
next
  case (Cons a sched)
  then show ?case by (simp add: assms(2))
qed

subsection \<open>What each function sends\<close>

lemma initiate_cases:
  "(initiate_request w s filename = None
      \<and> initiateMultipartUpload w s filename cs = (Inl NilDereference, cs))
   \<or> (\<exists>req. initiate_request w s filename = Some req
         \<and> initiateMultipartUpload w s filename cs
             = (Inr (initiate_result w (client_do w (length cs) req)), cs @ [(OpInit, req)]))"
  by (cases "initiate_request w s filename") (simp_all add: initiateMultipartUpload_def Do_def)

lemma uploadPart_cases:
  "(uploadPart_request w s part initRes n = None
      \<and> uploadPart w s part initRes n cs = (Inl NilDereference, cs))
   \<or> (\<exists>req. uploadPart_request w s part initRes n = Some req
         \<and> uploadPart w s part initRes n cs
             = (Inr (uploadPart_result w (client_do w (length cs) req)), cs @ [(OpPart, req)]))"
  by (cases "uploadPart_request w s part initRes n") (simp_all add: uploadPart_def Do_def)

lemma finish_cases:
  "(finish_request w s initRes e = None
      \<and> finishMultipartUpload w s initRes e cs = (Inl NilDereference, cs))
   \<or> (\<exists>req. finish_request w s initRes e = Some req
         \<and> finishMultipartUpload w s initRes e cs
             = (Inr (finish_result w (client_do w (length cs) req)), cs @ [(OpFinish, req)]))"
  by (cases "finish_request w s initRes e") (simp_all add: finishMultipartUpload_def Do_def)

lemma content_length_part:
  "uploadPart_request w s part initRes partNum = Some req
     \<Longrightarrow> Header_Get (Header req) ''Content-Length'' = Itoa (BlkSize initRes)"
  by (auto simp: uploadPart_request_def Header_Add_def NewRequest_def Header_Get_def Let_def
      split: if_splits)

lemma ReqBody_part:
  "uploadPart_request w s part initRes n = Some req \<Longrightarrow> ReqBody req = part"
  by (auto simp: uploadPart_request_def NewRequest_def Header_Add_def Let_def split: if_splits)

lemma finish_upload_shape:
  "finish_upload w s initRes st = st\<lparr>pc := Crashed NilDereference\<rparr>
   \<or> (\<exists>req r. finish_upload w s initRes st
          = st\<lparr>calls := calls st @ [(OpFinish, req)], pc := Returned r\<rparr>)"
proof -
  from finish_cases[of w s initRes "Join (etags st) '',''" "calls st"]
  show ?thesis
  proof
    assume "finish_request w s initRes (Join (etags st) '','') = None
      \<and> finishMultipartUpload w s initRes (Join (etags st) '','') (calls st)
          = (Inl NilDereference, calls st)"
    then show ?thesis by (simp add: finish_upload_def)
  next
    assume "\<exists>req. finish_request w s initRes (Join (etags st) '','') = Some req
         \<and> finishMultipartUpload w s initRes (Join (etags st) '','') (calls st)
             = (Inr (finish_result w (client_do w (length (calls st)) req)),
                calls st @ [(OpFinish, req)])"
    then obtain req where
      f: "finishMultipartUpload w s initRes (Join (etags st) '','') (calls st)
             = (Inr (finish_result w (client_do w (length (calls st)) req)),
                calls st @ [(OpFinish, req)])"
      by blast
    show ?thesis
      by (cases "finish_result w (client_do w (length (calls st)) req)")
         (auto simp: finish_upload_def f)
  qed
qed

text \<open>
  What the main goroutine does after \<open>wg.Wait\<close>, when the bound \<open>num * blockSize\<close> of the
  last slice expression is exact and within the payload: it ends in the panic on a \<open>nil\<close>
  request or it returns, having sent the remainder, if there is one, and then the
  finalisation, if the remainder succeeded.
\<close>

lemma after_wait_shape:
  assumes m: "go_mul num (BlkSize initRes) = num * BlkSize initRes"
    and lb: "0 \<le> num * BlkSize initRes" "num * BlkSize initRes \<le> int (length content)"
  shows "\<exists>extra es p. after_wait w s content initRes num st
            = st\<lparr>calls := calls st @ extra, etags := es, pc := p\<rparr>
          \<and> (\<forall>c \<in> set extra. part_call initRes c)
          \<and> (p = Crashed NilDereference
              \<or> (\<exists>r. p = Returned r)
                \<and> map snd (filter (\<lambda>c. fst c = OpPart) extra)
                    = (if num * BlkSize initRes < int (length content)
                       then (case uploadPart_request w s
                                   (drop (nat (num * BlkSize initRes)) content) initRes num of
                               None \<Rightarrow> [] | Some req \<Rightarrow> [req])
                       else [])
                \<and> (num * BlkSize initRes < int (length content) \<longrightarrow>
                     uploadPart_request w s (drop (nat (num * BlkSize initRes)) content) initRes num
                       \<noteq> None))"
proof (cases "num * BlkSize initRes < int (length content)")
  case False
  then have aw: "after_wait w s content initRes num st = finish_upload w s initRes st"
    by (simp add: after_wait_def m)
  from finish_upload_shape[of w s initRes st]
  show ?thesis
  proof
    assume "finish_upload w s initRes st = st\<lparr>pc := Crashed NilDereference\<rparr>"
    then have "after_wait w s content initRes num st
        = st\<lparr>calls := calls st @ [], etags := etags st, pc := Crashed NilDereference\<rparr>"
      using aw by simp
    then show ?thesis by (intro exI[of _ "[]"] exI[of _ "etags st"] exI[of _ "Crashed NilDereference"]) simp
  next
    assume "\<exists>req r. finish_upload w s initRes st
          = st\<lparr>calls := calls st @ [(OpFinish, req)], pc := Returned r\<rparr>"
    then obtain req r where f: "finish_upload w s initRes st
          = st\<lparr>calls := calls st @ [(OpFinish, req)], pc := Returned r\<rparr>"
      by blast
    have "after_wait w s content initRes num st
        = st\<lparr>calls := calls st @ [(OpFinish, req)], etags := etags st, pc := Returned r\<rparr>"
      unfolding aw f by simp
    then show ?thesis using False
      by (intro exI[of _ "[(OpFinish, req)]"] exI[of _ "etags st"] exI[of _ "Returned r"])
         (simp add: part_call_def)
  qed
next
  case True
  let ?part = "drop (nat (num * BlkSize initRes)) content"
  have aw: "after_wait w s content initRes num st
      = (case uploadPart w s ?part initRes num (calls st) of
           (Inl p, cs') \<Rightarrow> st\<lparr>calls := cs', pc := Crashed p\<rparr>
         | (Inr (Inl err), cs') \<Rightarrow> st\<lparr>calls := cs', pc := Returned (Some err)\<rparr>
         | (Inr (Inr (res, etag)), cs') \<Rightarrow>
             finish_upload w s initRes (st\<lparr>calls := cs', etags := etags st @ [etag]\<rparr>))"
    using True lb by (simp add: after_wait_def m Let_def)
  from uploadPart_cases[of w s ?part initRes num "calls st"]
  show ?thesis
  proof
    assume "uploadPart_request w s ?part initRes num = None
      \<and> uploadPart w s ?part initRes num (calls st) = (Inl NilDereference, calls st)"
    then have "after_wait w s content initRes num st
        = st\<lparr>calls := calls st @ [], etags := etags st, pc := Crashed NilDereference\<rparr>"
      using aw by simp
    then show ?thesis by (intro exI[of _ "[]"] exI[of _ "etags st"] exI[of _ "Crashed NilDereference"]) simp
  next
    assume "\<exists>req. uploadPart_request w s ?part initRes num = Some req
         \<and> uploadPart w s ?part initRes num (calls st)
             = (Inr (uploadPart_result w (client_do w (length (calls st)) req)),
                calls st @ [(OpPart, req)])"
    then obtain req where rq: "uploadPart_request w s ?part initRes num = Some req"
      and up: "uploadPart w s ?part initRes num (calls st)
             = (Inr (uploadPart_result w (client_do w (length (calls st)) req)),
                calls st @ [(OpPart, req)])"
      by blast
    have pcall: "part_call initRes (OpPart, req)"
      using content_length_part[OF rq] by (simp add: part_call_def)
    show ?thesis
    proof (cases "uploadPart_result w (client_do w (length (calls st)) req)")
      case (Inl err)
      then have "after_wait w s content initRes num st
          = st\<lparr>calls := calls st @ [(OpPart, req)], etags := etags st, pc := Returned (Some err)\<rparr>"
        using aw up by simp
      then show ?thesis using True rq pcall
        by (intro exI[of _ "[(OpPart, req)]"] exI[of _ "etags st"] exI[of _ "Returned (Some err)"])
           simp
    next
      case (Inr x)
      obtain res etag where x: "x = (res, etag)" by (cases x)
      let ?st1 = "st\<lparr>calls := calls st @ [(OpPart, req)], etags := etags st @ [etag]\<rparr>"
      have aw1: "after_wait w s content initRes num st = finish_upload w s initRes ?st1"
        using aw up Inr x by simp
      from finish_upload_shape[of w s initRes ?st1]
      show ?thesis
      proof
        assume "finish_upload w s initRes ?st1 = ?st1\<lparr>pc := Crashed NilDereference\<rparr>"
        then have "after_wait w s content initRes num st
            = st\<lparr>calls := calls st @ [(OpPart, req)], etags := etags st @ [etag],
                 pc := Crashed NilDereference\<rparr>"
          using aw1 by simp
        then show ?thesis using pcall
          by (intro exI[of _ "[(OpPart, req)]"] exI[of _ "etags st @ [etag]"]
                exI[of _ "Crashed NilDereference"]) simp
      next
        assume "\<exists>freq r. finish_upload w s initRes ?st1
            = ?st1\<lparr>calls := calls ?st1 @ [(OpFinish, freq)], pc := Returned r\<rparr>"
        then obtain freq r where f: "finish_upload w s initRes ?st1
            = ?st1\<lparr>calls := calls ?st1 @ [(OpFinish, freq)], pc := Returned r\<rparr>"
          by blast
        have "after_wait w s content initRes num st
            = st\<lparr>calls := calls st @ [(OpPart, req), (OpFinish, freq)], etags := etags st @ [etag],
                 pc := Returned r\<rparr>"
          unfolding aw1 f by simp
        then show ?thesis using True rq pcall
          by (intro exI[of _ "[(OpPart, req), (OpFinish, freq)]"] exI[of _ "etags st @ [etag]"]
                exI[of _ "Returned r"])
             (simp add: part_call_def)
      qed
    qed
  qed
qed

subsection \<open>The requests of a run\<close>

lemma finish_upload_calls:
  assumes "calls_inv initRes cs st"
  shows "calls_inv initRes cs (finish_upload w s initRes st)"
proof -
  from finish_upload_shape[of w s initRes st]
  show ?thesis
  proof
    assume "finish_upload w s initRes st = st\<lparr>pc := Crashed NilDereference\<rparr>"
    then show ?thesis using assms by (simp add: calls_inv_def)
  next
    assume "\<exists>req r. finish_upload w s initRes st
          = st\<lparr>calls := calls st @ [(OpFinish, req)], pc := Returned r\<rparr>"
    then show ?thesis using assms by (auto simp: calls_inv_def part_call_def)
  qed
qed

lemma after_wait_calls:
  assumes "calls_inv initRes cs st"
  shows "calls_inv initRes cs (after_wait w s content initRes num st)"
proof -
  have crash: "calls_inv initRes cs (st\<lparr>pc := Crashed SliceOutOfRange\<rparr>)"
    using assms by (simp add: calls_inv_def)
  have rem: "calls_inv initRes cs
      (case uploadPart w s part initRes num (calls st) of
         (Inl p, cs') \<Rightarrow> st\<lparr>calls := cs', pc := Crashed p\<rparr>
       | (Inr (Inl err), cs') \<Rightarrow> st\<lparr>calls := cs', pc := Returned (Some err)\<rparr>
       | (Inr (Inr (res, etag)), cs') \<Rightarrow>
           finish_upload w s initRes (st\<lparr>calls := cs', etags := etags st @ [etag]\<rparr>))" for part
  proof -
    from uploadPart_cases[of w s part initRes num "calls st"]
    show ?thesis
    proof
      assume "uploadPart_request w s part initRes num = None
        \<and> uploadPart w s part initRes num (calls st) = (Inl NilDereference, calls st)"
      then show ?thesis using assms by (simp add: calls_inv_def)
    next
      assume "\<exists>req. uploadPart_request w s part initRes num = Some req
         \<and> uploadPart w s part initRes num (calls st)
             = (Inr (uploadPart_result w (client_do w (length (calls st)) req)),
                calls st @ [(OpPart, req)])"
      then obtain req where rq: "uploadPart_request w s part initRes num = Some req"
        and up: "uploadPart w s part initRes num (calls st)
             = (Inr (uploadPart_result w (client_do w (length (calls st)) req)),
                calls st @ [(OpPart, req)])"
        by blast
      have ext: "calls_inv initRes cs (st\<lparr>calls := calls st @ [(OpPart, req)], etags := e, pc := p\<rparr>)"
        for e p
        using assms content_length_part[OF rq] by (auto simp: calls_inv_def part_call_def)
      show ?thesis
      proof (cases "uploadPart_result w (client_do w (length (calls st)) req)")
        case (Inl err)
        then show ?thesis using up ext[where e = "etags st" and p = "Returned (Some err)"] by simp
      next
        case (Inr x)
        obtain res etag where x: "x = (res, etag)" by (cases x)
        have "calls_inv initRes cs
            (finish_upload w s initRes (st\<lparr>calls := calls st @ [(OpPart, req)], etags := etags st @ [etag]\<rparr>))"
          by (rule finish_upload_calls) (use ext[where e = "etags st @ [etag]" and p = "pc st"] in simp)
        then show ?thesis using up Inr x by simp
      qed
    qed
  qed
  show ?thesis
    unfolding after_wait_def Let_def
    using crash rem finish_upload_calls[OF assms] by simp
qed

lemma start_part_calls:
  assumes "calls_inv initRes cs st"
  shows "calls_inv initRes cs (start_part w s content initRes j st)"
proof (cases "workers st j = Some Spawned")
  case False
  then have "start_part w s content initRes j st = st"
    by (auto simp: start_part_def split: option.splits worker.splits)
  then show ?thesis using assms by simp
next
  case True
  have crash: "calls_inv initRes cs (st\<lparr>pc := Crashed p\<rparr>)" for p
    using assms by (simp add: calls_inv_def)
  have send: "calls_inv initRes cs
      (case uploadPart_request w s part initRes (loop_i st) of
         None \<Rightarrow> st\<lparr>pc := Crashed NilDereference\<rparr>
       | Some req \<Rightarrow>
           (case Do w OpPart req (calls st) of
              (r, cs') \<Rightarrow> st\<lparr>calls := cs', workers := (workers st)(j \<mapsto> Sent r)\<rparr>))" for part
  proof (cases "uploadPart_request w s part initRes (loop_i st)")
    case None
    then show ?thesis using crash by simp
  next
    case (Some req)
    then show ?thesis using assms content_length_part[OF Some]
      by (auto simp: Do_def calls_inv_def part_call_def)
  qed
  show ?thesis
    unfolding start_part_def Let_def using True crash send by simp
qed

lemma step_calls:
  assumes "calls_inv initRes cs st"
  shows "calls_inv initRes cs (step w s content initRes num a st)"
proof (cases a)
  case MainStep
  have "calls_inv initRes cs (main_step w s content initRes num st)"
    using assms after_wait_calls[OF assms]
    by (auto simp: main_step_def calls_inv_def split: pc.splits)
  then show ?thesis using assms MainStep by (simp add: step_def split: pc.splits)
next
  case (StartPart j)
  then show ?thesis using assms start_part_calls[OF assms] by (simp add: step_def split: pc.splits)
next
  case (FinishPart j)
  have "calls_inv initRes cs (finish_part w j st)"
    using assms
    by (auto simp: finish_part_def calls_inv_def split: option.splits worker.splits sum.splits)
  then show ?thesis using assms FinishPart by (simp add: step_def split: pc.splits)
qed

lemma run_calls:
  "calls_inv initRes cs st \<Longrightarrow> calls_inv initRes cs (run w s content initRes num sched st)"
  by (rule run_invariant) (auto intro: step_calls)

lemma Save_multipart:
  assumes "MAX_PUT_SIZE < int (length content)"
    and "initiateMultipartUpload w s filename [] = (Inr (Inr initRes), cs)"
    and "BlkSize initRes \<noteq> 0"
  shows "Save w s sched content filename =
     run w s content initRes (go_quot (int (length content)) (BlkSize initRes)) sched (start_state cs)"
  using assms by (simp add: Save_def)

lemma initiate_ok:
  assumes "fst (initiateMultipartUpload w s filename []) = Inr x"
  shows "\<exists>req. initiate_request w s filename = Some req
           \<and> initiateMultipartUpload w s filename [] = (Inr x, [(OpInit, req)])"
  using assms initiate_cases[of w s filename "[]"] by auto

subsection \<open>No panic of the partitioning with a positive block size\<close>

lemma after_wait_safe:
  assumes inv: "safe_inv num st"
    and len: "int (length content) < 2 ^ 63" and b: "0 < BlkSize initRes"
    and num: "num = int (length content) div BlkSize initRes"
  shows "safe_inv num (after_wait w s content initRes num st)"
proof -
  have lb: "0 \<le> num * BlkSize initRes" "num * BlkSize initRes \<le> int (length content)"
    using last_bounds[of "int (length content)" "BlkSize initRes"] b num by simp_all
  then have m: "go_mul num (BlkSize initRes) = num * BlkSize initRes"
    using len by (simp add: go_mul_def wrap64_id)
  from after_wait_shape[OF m lb, of w s st]
  obtain extra es p where aw: "after_wait w s content initRes num st
            = st\<lparr>calls := calls st @ extra, etags := es, pc := p\<rparr>"
    and p: "p = Crashed NilDereference \<or> (\<exists>r. p = Returned r)"
    by blast
  show ?thesis unfolding aw using inv p by (auto simp: safe_inv_def)
qed

lemma main_step_safe:
  assumes inv: "safe_inv num st"
    and len: "int (length content) < 2 ^ 63" and b: "0 < BlkSize initRes"
    and num: "num = int (length content) div BlkSize initRes"
  shows "safe_inv num (main_step w s content initRes num st)"
proof (cases "pc st")
  case Loop
  then show ?thesis using inv by (auto simp: main_step_def safe_inv_def)
next
  case Incr
  have "num \<le> int (length content)" using num b by (simp add: div_le_self)
  then have "go_add (loop_i st) 1 = loop_i st + 1"
    using inv Incr len by (simp add: go_add_def wrap64_id safe_inv_def)
  then show ?thesis using inv Incr by (auto simp: main_step_def safe_inv_def)
next
  case Wait
  then show ?thesis using after_wait_safe[OF inv len b num] inv by (simp add: main_step_def)
next
  case (Returned r)
  then show ?thesis using inv by (simp add: main_step_def)
next
  case (Crashed p)
  then show ?thesis using inv by (simp add: main_step_def)
qed

text \<open>The goroutine's two products are exact and its slice is block \<open>j\<close> of the payload.\<close>

lemma start_part_eq:
  assumes len: "int (length content) < 2 ^ 63" and b: "0 < BlkSize initRes"
    and j: "0 \<le> j" "j < int (length content) div BlkSize initRes"
    and sp: "workers st j = Some Spawned"
  shows "start_part w s content initRes j st =
     (case uploadPart_request w s (full_part content initRes j) initRes (loop_i st) of
        None \<Rightarrow> st\<lparr>pc := Crashed NilDereference\<rparr>
      | Some req \<Rightarrow>
          st\<lparr>calls := calls st @ [(OpPart, req)],
             workers := (workers st)(j \<mapsto> Sent (client_do w (length (calls st)) req))\<rparr>)"
proof -
  have pb1: "0 \<le> j * BlkSize initRes" "j * BlkSize initRes \<le> (j + 1) * BlkSize initRes"
    "(j + 1) * BlkSize initRes \<le> int (length content)"
    using part_bounds[OF _ b j] by simp_all
  have "int (length content) div BlkSize initRes \<le> int (length content)"
    using b by (simp add: div_le_self)
  then have a1: "go_add j 1 = j + 1" using j len by (simp add: go_add_def wrap64_id)
  have m1: "go_mul j (BlkSize initRes) = j * BlkSize initRes"
    using pb1 len by (simp add: go_mul_def wrap64_id)
  have m2: "go_mul (j + 1) (BlkSize initRes) = (j + 1) * BlkSize initRes"
    using pb1 len by (simp add: go_mul_def wrap64_id)
  have d: "(j + 1) * BlkSize initRes - j * BlkSize initRes = BlkSize initRes"
    by (simp add: distrib_right)
  show ?thesis
    unfolding start_part_def Let_def a1 m1 m2 d
    using sp pb1 by (simp add: full_part_def Do_def split: option.splits)
qed

lemma start_part_safe:
  assumes inv: "safe_inv num st"
    and len: "int (length content) < 2 ^ 63" and b: "0 < BlkSize initRes"
    and num: "num = int (length content) div BlkSize initRes"
  shows "safe_inv num (start_part w s content initRes j st)"
proof (cases "workers st j = Some Spawned")
  case True
  then have j: "0 \<le> j" "j < int (length content) div BlkSize initRes"
    using inv num by (auto simp: safe_inv_def)
  show ?thesis
    unfolding start_part_eq[OF len b j True]
    using True inv by (auto simp: safe_inv_def split: option.splits)
next
  case False
  then have "start_part w s content initRes j st = st"
    by (auto simp: start_part_def split: option.splits worker.splits)
  then show ?thesis using inv by simp
qed

lemma finish_part_safe:
  "safe_inv num st \<Longrightarrow> safe_inv num (finish_part w j st)"
  by (auto simp: safe_inv_def finish_part_def split: option.splits worker.splits sum.splits)

lemma step_safe:
  assumes inv: "safe_inv num st"
    and len: "int (length content) < 2 ^ 63" and b: "0 < BlkSize initRes"
    and num: "num = int (length content) div BlkSize initRes"
  shows "safe_inv num (step w s content initRes num a st)"
proof (cases a)
  case MainStep
  then show ?thesis using main_step_safe[OF inv len b num] inv by (simp add: step_def split: pc.splits)
next
  case (StartPart j)
  then show ?thesis using start_part_safe[OF inv len b num] inv by (simp add: step_def split: pc.splits)
next
  case (FinishPart j)
  then show ?thesis using finish_part_safe[OF inv] inv by (simp add: step_def split: pc.splits)
qed

lemma run_safe:
  assumes inv: "safe_inv num st"
    and len: "int (length content) < 2 ^ 63" and b: "0 < BlkSize initRes"
    and num: "num = int (length content) div BlkSize initRes"
  shows "safe_inv num (run w s content initRes num sched st)"
  using inv by (rule run_invariant) (rule step_safe[OF _ len b num])

lemma start_state_safe: "0 \<le> num \<Longrightarrow> safe_inv num (start_state cs)"
  by (simp add: safe_inv_def start_state_def)

subsection \<open>No goroutine with a negative block size\<close>

lemma step_idle:
  assumes inv: "idle_inv st" and n0: "num \<le> 0"
    and m: "go_mul num (BlkSize initRes) = num * BlkSize initRes"
    and lb: "0 \<le> num * BlkSize initRes" "num * BlkSize initRes \<le> int (length content)"
  shows "idle_inv (step w s content initRes num a st)"
proof (cases a)
  case MainStep
  have "idle_inv (main_step w s content initRes num st)"
  proof (cases "pc st")
    case Loop
    then show ?thesis using inv n0 by (auto simp: main_step_def idle_inv_def)
  next
    case Incr
    then show ?thesis using inv by (simp add: idle_inv_def)
  next
    case Wait
    from after_wait_shape[OF m lb, of w s st]
    obtain extra es p where aw: "after_wait w s content initRes num st
            = st\<lparr>calls := calls st @ extra, etags := es, pc := p\<rparr>"
      and p: "p = Crashed NilDereference \<or> (\<exists>r. p = Returned r)"
      by blast
    have "idle_inv (after_wait w s content initRes num st)"
      unfolding aw using inv p by (auto simp: idle_inv_def)
    then show ?thesis using Wait inv by (simp add: main_step_def idle_inv_def)
  next
    case (Returned r)
    then show ?thesis using inv by (simp add: main_step_def)
  next
    case (Crashed p)
    then show ?thesis using inv by (simp add: main_step_def)
  qed
  then show ?thesis using inv MainStep by (simp add: step_def split: pc.splits)
next
  case (StartPart j)
  have "start_part w s content initRes j st = st"
    using inv by (simp add: start_part_def idle_inv_def)
  then show ?thesis using inv StartPart by (simp add: step_def split: pc.splits)
next
  case (FinishPart j)
  have "finish_part w j st = st"
    using inv by (simp add: finish_part_def idle_inv_def)
  then show ?thesis using inv FinishPart by (simp add: step_def split: pc.splits)
qed

lemma run_idle:
  assumes inv: "idle_inv st" and n0: "num \<le> 0"
    and m: "go_mul num (BlkSize initRes) = num * BlkSize initRes"
    and lb: "0 \<le> num * BlkSize initRes" "num * BlkSize initRes \<le> int (length content)"
  shows "idle_inv (run w s content initRes num sched st)"
  using inv by (rule run_invariant) (rule step_idle[OF _ n0 m lb])

lemma start_state_idle: "idle_inv (start_state cs)"
  by (simp add: idle_inv_def start_state_def)

subsection \<open>The parts sent by a run\<close>

lemma started_dom: "started st \<subseteq> dom (workers st)"
proof
  fix j assume "j \<in> started st"
  then show "j \<in> dom (workers st)" by (cases "workers st j") (auto simp: started_def)
qed

lemma pending_dom: "pending st \<subseteq> dom (workers st)"
proof
  fix j assume "j \<in> pending st"
  then show "j \<in> dom (workers st)" by (cases "workers st j") (auto simp: pending_def)
qed

lemma safe_dom_finite: "safe_inv num st \<Longrightarrow> finite (dom (workers st))"
proof -
  assume "safe_inv num st"
  then have "dom (workers st) \<subseteq> {0..<num}" by (auto simp: safe_inv_def)
  then show ?thesis by (rule finite_subset) simp
qed

lemma remainder_test:
  assumes "0 < (b::int)"
  shows "(a div b) * b < a \<longleftrightarrow> a mod b \<noteq> 0"
proof -
  have "a div b * b + a mod b = a" by (rule div_mult_mod_eq)
  moreover have "0 \<le> a mod b" using assms by (rule pos_mod_sign)
  ultimately show ?thesis by linarith
qed

lemma finite_started: "safe_inv num st \<Longrightarrow> finite (started st)"
  using safe_dom_finite started_dom by (rule rev_finite_subset)

lemma finite_pending: "safe_inv num st \<Longrightarrow> finite (pending st)"
  using safe_dom_finite pending_dom by (rule rev_finite_subset)

lemma part_inv_crash:
  "part_inv w s content initRes num st \<Longrightarrow> part_inv w s content initRes num (st\<lparr>pc := Crashed p\<rparr>)"
  by (simp add: part_inv_def pending_def started_def)

lemma part_inv_cong:
  assumes "part_inv w s content initRes num st"
    and "pc st' = pc st" "loop_i st' = loop_i st" "dom (workers st') = dom (workers st)"
    and "wg st' = int (card (pending st'))"
    and "mset (map ReqBody (part_requests st'))
              = image_mset (full_part content initRes) (mset_set (started st'))"
    and "\<And>r. pc st \<noteq> Returned r"
  shows "part_inv w s content initRes num st'"
  using assms by (simp add: part_inv_def)

lemma start_part_inv:
  assumes safe: "safe_inv num st" and inv: "part_inv w s content initRes num st"
    and nc: "\<And>p. pc st \<noteq> Crashed p"
    and len: "int (length content) < 2 ^ 63" and b: "0 < BlkSize initRes"
    and num: "num = int (length content) div BlkSize initRes"
  shows "part_inv w s content initRes num (start_part w s content initRes j st)"
proof (cases "workers st j = Some Spawned")
  case False
  then have "start_part w s content initRes j st = st"
    by (auto simp: start_part_def split: option.splits worker.splits)
  then show ?thesis using inv by simp
next
  case True
  let ?st' = "start_part w s content initRes j st"
  have j: "0 \<le> j" "j < int (length content) div BlkSize initRes"
    using True safe num by (auto simp: safe_inv_def)
  note eq0 = start_part_eq[OF len b j True, of w s]
  show ?thesis
  proof (cases "uploadPart_request w s (full_part content initRes j) initRes (loop_i st)")
    case None
    then have "?st' = st\<lparr>pc := Crashed NilDereference\<rparr>" using eq0 by simp
    then show ?thesis using part_inv_crash[OF inv] by simp
  next
    case (Some req)
    then have eq: "?st' = st\<lparr>calls := calls st @ [(OpPart, req)],
             workers := (workers st)(j \<mapsto> Sent (client_do w (length (calls st)) req))\<rparr>"
      using eq0 by simp
    have pend: "j \<in> pending st" and nst: "j \<notin> started st"
      using True by (simp_all add: pending_def started_def)
    have notret: "pc st \<noteq> Returned r" for r
      using inv pend by (auto simp: part_inv_def)
    have p: "pending ?st' = pending st"
      unfolding eq using pend by (auto simp: pending_def)
    have st: "started ?st' = insert j (started st)"
      unfolding eq by (auto simp: started_def)
    have d: "dom (workers ?st') = dom (workers st)"
      unfolding eq using True by auto
    have pr: "part_requests ?st' = part_requests st @ [req]"
      unfolding eq by (simp add: part_requests_def)
    have old: "mset (map ReqBody (part_requests st))
                = image_mset (full_part content initRes) (mset_set (started st))"
      using inv notret nc by (cases "pc st") (auto simp: part_inv_def)
    show ?thesis
    proof (rule part_inv_cong[OF inv])
      show "pc ?st' = pc st" "loop_i ?st' = loop_i st" unfolding eq by simp_all
      show "dom (workers ?st') = dom (workers st)" by (rule d)
      show "wg ?st' = int (card (pending ?st'))"
        unfolding p using inv unfolding eq by (simp add: part_inv_def)
      show "mset (map ReqBody (part_requests ?st'))
                = image_mset (full_part content initRes) (mset_set (started ?st'))"
        unfolding pr st using old finite_started[OF safe] nst by (simp add: ReqBody_part[OF Some])
      show "pc st \<noteq> Returned r" for r by (rule notret)
    qed
  qed
qed

lemma finish_part_shape:
  assumes "workers st j = Some (Sent r)"
  shows "(\<exists>ec es. finish_part w j st =
            st\<lparr>errChan := ec, etags := es, wg := wg st - 1, workers := (workers st)(j \<mapsto> Finished)\<rparr>)
         \<or> finish_part w j st = st\<lparr>workers := (workers st)(j \<mapsto> Blocked)\<rparr>"
proof (cases "uploadPart_result w r")
  case (Inl err)
  show ?thesis
  proof (cases "errChan st")
    case None
    have "finish_part w j st =
        st\<lparr>errChan := Some err, etags := etags st, wg := wg st - 1, workers := (workers st)(j \<mapsto> Finished)\<rparr>"
      using assms Inl None by (simp add: finish_part_def)
    then show ?thesis by blast
  next
    case (Some e)
    then show ?thesis using assms Inl by (simp add: finish_part_def)
  qed
next
  case (Inr p)
  obtain x etag where p: "p = (x, etag)" by (cases p)
  have "finish_part w j st =
        st\<lparr>errChan := errChan st, etags := etags st @ [etag], wg := wg st - 1, workers := (workers st)(j \<mapsto> Finished)\<rparr>"
    using assms Inr p by (simp add: finish_part_def)
  then show ?thesis by blast
qed

lemma finish_part_inv:
  assumes safe: "safe_inv num st" and inv: "part_inv w s content initRes num st"
    and nc: "\<And>p. pc st \<noteq> Crashed p"
  shows "part_inv w s content initRes num (finish_part w j st)"
proof (cases "\<exists>r. workers st j = Some (Sent r)")
  case False
  then have "finish_part w j st = st"
    by (auto simp: finish_part_def split: option.splits worker.splits)
  then show ?thesis using inv by simp
next
  case True
  then obtain r where r: "workers st j = Some (Sent r)" by blast
  let ?st' = "finish_part w j st"
  have pend: "j \<in> pending st" and sta: "j \<in> started st"
    using r by (simp_all add: pending_def started_def)
  have notret: "pc st \<noteq> Returned x" for x
    using inv pend by (auto simp: part_inv_def)
  have old: "mset (map ReqBody (part_requests st))
              = image_mset (full_part content initRes) (mset_set (started st))"
    using inv notret nc by (cases "pc st") (auto simp: part_inv_def)
  have wgold: "wg st = int (card (pending st))" using inv by (simp add: part_inv_def)
  have c: "int (card (pending st - {j})) = int (card (pending st)) - 1"
  proof -
    have "card (pending st) \<noteq> 0" using finite_pending[OF safe] pend by auto
    moreover have "card (pending st - {j}) = card (pending st) - 1"
      using finite_pending[OF safe] pend by simp
    ultimately show ?thesis by simp
  qed
  from finish_part_shape[OF r, of w]
  show ?thesis
  proof
    assume "\<exists>ec es. ?st' =
            st\<lparr>errChan := ec, etags := es, wg := wg st - 1, workers := (workers st)(j \<mapsto> Finished)\<rparr>"
    then obtain ec es where eq: "?st' =
            st\<lparr>errChan := ec, etags := es, wg := wg st - 1, workers := (workers st)(j \<mapsto> Finished)\<rparr>"
      by blast
    have p: "pending ?st' = pending st - {j}" unfolding eq by (auto simp: pending_def)
    have s': "started ?st' = started st" unfolding eq using sta by (auto simp: started_def)
    show ?thesis
    proof (rule part_inv_cong[OF inv])
      show "pc ?st' = pc st" "loop_i ?st' = loop_i st" unfolding eq by simp_all
      show "dom (workers ?st') = dom (workers st)" unfolding eq using r by auto
      show "wg ?st' = int (card (pending ?st'))"
        unfolding p c unfolding eq using wgold by simp
      show "mset (map ReqBody (part_requests ?st'))
              = image_mset (full_part content initRes) (mset_set (started ?st'))"
        unfolding s' unfolding eq using old by (simp add: part_requests_def)
      show "pc st \<noteq> Returned x" for x by (rule notret)
    qed
  next
    assume eq: "?st' = st\<lparr>workers := (workers st)(j \<mapsto> Blocked)\<rparr>"
    have p: "pending ?st' = pending st" unfolding eq using pend by (auto simp: pending_def)
    have s': "started ?st' = started st" unfolding eq using sta by (auto simp: started_def)
    show ?thesis
    proof (rule part_inv_cong[OF inv])
      show "pc ?st' = pc st" "loop_i ?st' = loop_i st" unfolding eq by simp_all
      show "dom (workers ?st') = dom (workers st)" unfolding eq using r by auto
      show "wg ?st' = int (card (pending ?st'))"
        unfolding p unfolding eq using wgold by simp
      show "mset (map ReqBody (part_requests ?st'))
              = image_mset (full_part content initRes) (mset_set (started ?st'))"
        unfolding s' unfolding eq using old by (simp add: part_requests_def)
      show "pc st \<noteq> Returned x" for x by (rule notret)
    qed
  qed
qed

lemma main_step_inv:
  assumes safe: "safe_inv num st" and inv: "part_inv w s content initRes num st"
    and len: "int (length content) < 2 ^ 63" and b: "0 < BlkSize initRes"
    and num: "num = int (length content) div BlkSize initRes"
  shows "part_inv w s content initRes num (main_step w s content initRes num st)"
proof (cases "pc st")
  case Loop
  have i0: "0 \<le> loop_i st" "loop_i st \<le> num" using safe by (simp_all add: safe_inv_def)
  have d: "dom (workers st) = {0..<loop_i st}" using inv Loop by (simp add: part_inv_def)
  have old: "mset (map ReqBody (part_requests st))
              = image_mset (full_part content initRes) (mset_set (started st))"
    and wgold: "wg st = int (card (pending st))"
    using inv Loop by (simp_all add: part_inv_def)
  show ?thesis
  proof (cases "loop_i st < num")
    case True
    let ?st' = "st\<lparr>wg := wg st + 1, workers := (workers st)(loop_i st \<mapsto> Spawned), pc := Incr\<rparr>"
    have eq: "main_step w s content initRes num st = ?st'"
      using Loop True by (simp add: main_step_def)
    have nd: "loop_i st \<notin> dom (workers st)" unfolding d by simp
    then have np: "loop_i st \<notin> pending st" and ns: "loop_i st \<notin> started st"
      using pending_dom started_dom by blast+
    have p: "pending ?st' = insert (loop_i st) (pending st)" by (auto simp: pending_def)
    have s': "started ?st' = started st" using ns by (auto simp: started_def)
    have c: "int (card (insert (loop_i st) (pending st))) = int (card (pending st)) + 1"
      using finite_pending[OF safe] np by simp
    have d': "dom (workers ?st') = {0..loop_i st}" using d i0 by auto
    have pr: "part_requests ?st' = part_requests st" by (simp add: part_requests_def)
    have "part_inv w s content initRes num ?st'"
      unfolding part_inv_def p s' c d' pr using old wgold by simp
    then show ?thesis unfolding eq .
  next
    case False
    then have e: "loop_i st = num" using i0 by simp
    have eq: "main_step w s content initRes num st = st\<lparr>pc := Wait\<rparr>"
      using Loop False by (simp add: main_step_def)
    show ?thesis unfolding eq using inv Loop e
      by (simp add: part_inv_def pending_def started_def part_requests_def)
  qed
next
  case Incr
  have i0: "0 \<le> loop_i st" "loop_i st < num" using safe Incr by (simp_all add: safe_inv_def)
  have "num \<le> int (length content)" using num b by (simp add: div_le_self)
  then have a: "go_add (loop_i st) 1 = loop_i st + 1"
    using i0 len by (simp add: go_add_def wrap64_id)
  have eq: "main_step w s content initRes num st = st\<lparr>loop_i := loop_i st + 1, pc := Loop\<rparr>"
    using Incr a by (simp add: main_step_def)
  have d: "{0..loop_i st} = {0..<loop_i st + 1}" by auto
  show ?thesis unfolding eq using inv Incr d
    by (simp add: part_inv_def pending_def started_def part_requests_def)
next
  case Wait
  show ?thesis
  proof (cases "wg st = 0")
    case False
    then show ?thesis using Wait inv by (simp add: main_step_def)
  next
    case True
    have eq: "main_step w s content initRes num st = after_wait w s content initRes num st"
      using Wait True by (simp add: main_step_def)
    have p0: "pending st = {}"
      using inv True finite_pending[OF safe] by (simp add: part_inv_def)
    have d: "dom (workers st) = {0..<num}" using inv Wait by (simp add: part_inv_def)
    have "dom (workers st) \<subseteq> started st"
    proof
      fix j assume "j \<in> dom (workers st)"
      then obtain x where x: "workers st j = Some x" by blast
      have "\<not> is_pending (workers st j)" using p0 by (auto simp: pending_def)
      then show "j \<in> started st" using x by (cases x) (simp_all add: started_def)
    qed
    then have s0: "started st = {0..<num}" using started_dom[of st] d by blast
    have old: "mset (map ReqBody (part_requests st))
              = image_mset (full_part content initRes) (mset_set {0..<num})"
      using inv Wait s0 by (simp add: part_inv_def)
    have lb: "0 \<le> num * BlkSize initRes" "num * BlkSize initRes \<le> int (length content)"
      using last_bounds[of "int (length content)" "BlkSize initRes"] b num by simp_all
    then have m: "go_mul num (BlkSize initRes) = num * BlkSize initRes"
      using len by (simp add: go_mul_def wrap64_id)
    have t: "num * BlkSize initRes < int (length content)
        \<longleftrightarrow> int (length content) mod BlkSize initRes \<noteq> 0"
      unfolding num using b by (rule remainder_test)
    from after_wait_shape[OF m lb, of w s st]
    obtain extra es p where aw: "after_wait w s content initRes num st
            = st\<lparr>calls := calls st @ extra, etags := es, pc := p\<rparr>"
      and p: "p = Crashed NilDereference
              \<or> (\<exists>r. p = Returned r)
                \<and> map snd (filter (\<lambda>c. fst c = OpPart) extra)
                    = (if num * BlkSize initRes < int (length content)
                       then (case uploadPart_request w s
                                   (drop (nat (num * BlkSize initRes)) content) initRes num of
                               None \<Rightarrow> [] | Some req \<Rightarrow> [req])
                       else [])
                \<and> (num * BlkSize initRes < int (length content) \<longrightarrow>
                     uploadPart_request w s (drop (nat (num * BlkSize initRes)) content) initRes num
                       \<noteq> None)"
      by blast
    have p': "pending (st\<lparr>calls := calls st @ extra, etags := es, pc := p\<rparr>) = {}"
      using p0 by (simp add: pending_def)
    from p show ?thesis
    proof
      assume "p = Crashed NilDereference"
      then show ?thesis
        unfolding eq aw part_inv_def p' using True by simp
    next
      assume r: "(\<exists>r. p = Returned r)
                \<and> map snd (filter (\<lambda>c. fst c = OpPart) extra)
                    = (if num * BlkSize initRes < int (length content)
                       then (case uploadPart_request w s
                                   (drop (nat (num * BlkSize initRes)) content) initRes num of
                               None \<Rightarrow> [] | Some req \<Rightarrow> [req])
                       else [])
                \<and> (num * BlkSize initRes < int (length content) \<longrightarrow>
                     uploadPart_request w s (drop (nat (num * BlkSize initRes)) content) initRes num
                       \<noteq> None)"
      then have ex: "map snd (filter (\<lambda>c. fst c = OpPart) extra)
            = remainder_requests w s content initRes num"
        unfolding t by (simp add: remainder_requests_def)
      have nn: "int (length content) mod BlkSize initRes \<noteq> 0 \<longrightarrow>
             uploadPart_request w s (drop (nat (num * BlkSize initRes)) content) initRes num \<noteq> None"
        using r unfolding t by blast
      have pr: "part_requests (st\<lparr>calls := calls st @ extra, etags := es, pc := p\<rparr>)
          = part_requests st @ remainder_requests w s content initRes num"
        using ex by (simp add: part_requests_def)
      show ?thesis
        unfolding eq aw part_inv_def pr p' using old True r nn by auto
    qed
  qed
next
  case (Returned r)
  then show ?thesis using inv by (simp add: main_step_def)
next
  case (Crashed p)
  then show ?thesis using inv by (simp add: main_step_def)
qed

lemma step_part_inv:
  assumes safe: "safe_inv num st" and inv: "part_inv w s content initRes num st"
    and len: "int (length content) < 2 ^ 63" and b: "0 < BlkSize initRes"
    and num: "num = int (length content) div BlkSize initRes"
  shows "part_inv w s content initRes num (step w s content initRes num a st)"
proof (cases "\<exists>p. pc st = Crashed p")
  case True
  then show ?thesis using inv by (auto simp: step_def)
next
  case False
  then have nc: "pc st \<noteq> Crashed p" for p by blast
  show ?thesis
  proof (cases a)
    case MainStep
    then show ?thesis using main_step_inv[OF safe inv len b num] inv
      by (simp add: step_def split: pc.splits)
  next
    case (StartPart j)
    then show ?thesis using start_part_inv[OF safe inv nc len b num] inv
      by (simp add: step_def split: pc.splits)
  next
    case (FinishPart j)
    then show ?thesis using finish_part_inv[OF safe inv nc] inv
      by (simp add: step_def split: pc.splits)
  qed
qed

lemma run_part_inv:
  assumes len: "int (length content) < 2 ^ 63" and b: "0 < BlkSize initRes"
    and num: "num = int (length content) div BlkSize initRes"
    and safe: "safe_inv num st" and inv: "part_inv w s content initRes num st"
  shows "part_inv w s content initRes num (run w s content initRes num sched st)"
proof -
  have "safe_inv num (run w s content initRes num sched st)
      \<and> part_inv w s content initRes num (run w s content initRes num sched st)"
    by (rule run_invariant[where P = "\<lambda>st. safe_inv num st \<and> part_inv w s content initRes num st"])
       (use safe inv step_safe[OF _ len b num] step_part_inv[OF _ _ len b num] in auto)
  then show ?thesis by simp
qed

lemma start_state_part_inv: "part_inv w s content initRes num (start_state cs0)"
  if "\<forall>c \<in> set cs0. fst c \<noteq> OpPart"
  using that
  by (simp add: part_inv_def start_state_def pending_def started_def part_requests_def filter_empty_conv)

lemma blocks_cover:
  assumes b: "0 < B" and n: "int n * B \<le> int (length content)"
  shows "concat (map (\<lambda>j. take (nat B) (drop (nat (int j * B)) content)) [0..<n])
           = take (nat (int n * B)) content"
  using n
proof (induction n)
  case 0
  then show ?case by simp
next
  case (Suc n)
  have le: "int n * B \<le> int (length content)"
  proof -
    have "int n * B \<le> int (Suc n) * B" using b by (simp add: distrib_right)
    then show ?thesis using Suc.prems by linarith
  qed
  have nn: "nat ((1 + int n) * B) = nat (int n * B) + nat B"
    using b by (simp add: distrib_right nat_add_distrib)
  have "take (nat (int n * B) + nat B) content
          = take (nat (int n * B)) content @ take (nat B) (drop (nat (int n * B)) content)"
    by (rule take_add)
  then show ?case
    using Suc.IH[OF le] by (simp add: nn)
qed

text \<open>
  Whenever \<open>Save\<close> returns from the multipart branch with a positive block size, under any
  schedule and whatever the service answered, the part requests it has made are one request
  for each of the \<open>size div blockSize\<close> full blocks, in some order, followed by the request for
  the remainder when there is one.
\<close>

theorem returned_run_partition:
  assumes init: "fst (initiateMultipartUpload w s filename []) = Inr (Inr initRes)"
    and big: "MAX_PUT_SIZE < int (length content)" and len: "int (length content) < 2 ^ 63"
    and b: "0 < BlkSize initRes"
    and ret: "pc (Save w s sched content filename) = Returned r"
  shows "\<exists>full. part_requests (Save w s sched content filename)
            = full @ remainder_requests w s content initRes (int (length content) div BlkSize initRes)
          \<and> mset (map ReqBody full)
              = image_mset (full_part content initRes)
                  (mset_set {0..<int (length content) div BlkSize initRes})
          \<and> (int (length content) mod BlkSize initRes \<noteq> 0 \<longrightarrow>
               length (remainder_requests w s content initRes
                         (int (length content) div BlkSize initRes)) = 1)"
proof -
  let ?num = "int (length content) div BlkSize initRes"
  obtain req where rq: "initiate_request w s filename = Some req"
    and ini: "initiateMultipartUpload w s filename [] = (Inr (Inr initRes), [(OpInit, req)])"
    using initiate_ok[OF init] by blast
  let ?cs = "[(OpInit, req)]"
  have nz: "BlkSize initRes \<noteq> 0" using b by simp
  have q: "go_quot (int (length content)) (BlkSize initRes) = ?num"
    using len b by (simp add: go_quot_pos)
  have "0 \<le> ?num" using b by (simp add: pos_imp_zdiv_nonneg_iff)
  then have safe: "safe_inv ?num (start_state ?cs)" by (rule start_state_safe)
  have inv: "part_inv w s content initRes ?num (start_state ?cs)"
    by (rule start_state_part_inv) simp
  have "part_inv w s content initRes ?num (Save w s sched content filename)"
    unfolding Save_multipart[OF big ini nz] q
    using len b _ safe inv by (rule run_part_inv) simp
  then show ?thesis using ret
    by (auto simp: part_inv_def remainder_requests_def)
qed

text \<open>The full blocks in increasing order, followed by the remainder, are the payload.\<close>

lemma partition_covers_payload:
  assumes b: "0 < BlkSize initRes"
  shows "concat (map (\<lambda>j. full_part content initRes (int j))
                   [0..<nat (int (length content) div BlkSize initRes)])
           @ drop (nat (int (length content) div BlkSize initRes * BlkSize initRes)) content
         = content"
proof -
  let ?num = "int (length content) div BlkSize initRes"
  have n0: "0 \<le> ?num" using b by (simp add: pos_imp_zdiv_nonneg_iff)
  have "int (nat ?num) * BlkSize initRes \<le> int (length content)"
    using n0 b by (simp add: div_mult_le)
  from blocks_cover[OF b this]
  show ?thesis using n0 by (simp add: full_part_def)
qed

section \<open>The threshold\<close>

text \<open>
  \<open>MAX_PUT_SIZE\<close> is 52428800, that is 50 MiB. For a payload of at most that many bytes
  \<open>Save\<close> does what \<open>put\<close> does: when \<open>put\<close> has built its request, \<open>Save\<close> returns the
  result of \<open>put\<close> and the only request made is the PUT sent by \<open>put\<close>; when
  \<open>http.NewRequest\<close> has rejected the URL, \<open>put\<close> panics on the \<open>nil\<close> request and nothing
  is sent. For a longer payload the first request, if it can be built, is the initiation of
  a multipart session, and every later request is a part upload or the finalisation, under
  every schedule.
\<close>

theorem Save_threshold:
  "MAX_PUT_SIZE = 52428800 \<and> MAX_PUT_SIZE = 50 * 1024 * 1024
   \<and> (int (length content) \<le> MAX_PUT_SIZE \<longrightarrow>
        (put_request w s content filename = None \<longrightarrow>
           pc (Save w s sched content filename) = Crashed NilDereference
           \<and> calls (Save w s sched content filename) = [])
        \<and> (\<forall>req. put_request w s content filename = Some req \<longrightarrow>
              fst (put w s content filename []) = Inr (put_result (client_do w 0 req))
              \<and> pc (Save w s sched content filename) = Returned (put_result (client_do w 0 req))
              \<and> calls (Save w s sched content filename) = [(OpPut, req)]
              \<and> Method req = ''PUT''))
   \<and> (MAX_PUT_SIZE < int (length content) \<longrightarrow>
        (initiate_request w s filename = None \<longrightarrow>
           pc (Save w s sched content filename) = Crashed NilDereference
           \<and> calls (Save w s sched content filename) = [])
        \<and> (\<forall>req. initiate_request w s filename = Some req \<longrightarrow>
              (\<exists>rest. calls (Save w s sched content filename) = (OpInit, req) # rest
                 \<and> (\<forall>c \<in> set rest. fst c = OpPart \<or> fst c = OpFinish))))"
proof (intro conjI impI allI)
  show "MAX_PUT_SIZE = 52428800" "MAX_PUT_SIZE = 50 * 1024 * 1024"
    by (simp_all add: MAX_PUT_SIZE_def)
next
  assume small: "int (length content) \<le> MAX_PUT_SIZE"
  {
    assume "put_request w s content filename = None"
    then have "put w s content filename [] = (Inl NilDereference, [])"
      by (simp add: put_def)
    then show "pc (Save w s sched content filename) = Crashed NilDereference"
      and "calls (Save w s sched content filename) = []"
      using small by (simp_all add: Save_def start_state_def)
  }
  {
    fix req
    assume rq: "put_request w s content filename = Some req"
    then have p: "put w s content filename [] = (Inr (put_result (client_do w 0 req)), [(OpPut, req)])"
      by (simp add: put_def Do_def)
    then show "fst (put w s content filename []) = Inr (put_result (client_do w 0 req))"
      by simp
    show "pc (Save w s sched content filename) = Returned (put_result (client_do w 0 req))"
      and "calls (Save w s sched content filename) = [(OpPut, req)]"
      using small p by (simp_all add: Save_def start_state_def)
    show "Method req = ''PUT''"
      using rq by (auto simp: put_request_def NewRequest_def Header_Add_def Let_def split: if_splits)
  }
next
  assume big: "MAX_PUT_SIZE < int (length content)"
  {
    assume "initiate_request w s filename = None"
    then have "initiateMultipartUpload w s filename [] = (Inl NilDereference, [])"
      by (simp add: initiateMultipartUpload_def)
    then show "pc (Save w s sched content filename) = Crashed NilDereference"
      and "calls (Save w s sched content filename) = []"
      using big by (simp_all add: Save_def start_state_def)
  }
  {
    fix req
    assume rq: "initiate_request w s filename = Some req"
    let ?cs = "[(OpInit, req)]"
    let ?r = "initiate_result w (client_do w 0 req)"
    have ini: "initiateMultipartUpload w s filename [] = (Inr ?r, ?cs)"
      using rq by (simp add: initiateMultipartUpload_def Do_def)
    have "\<exists>initRes. calls_inv initRes ?cs (Save w s sched content filename)"
    proof (cases ?r)
      case (Inl err)
      then show ?thesis using big ini by (simp add: Save_def calls_inv_def start_state_def)
    next
      case (Inr initRes)
      have st: "calls_inv initRes ?cs (start_state ?cs)"
        by (simp add: calls_inv_def start_state_def)
      have ini': "initiateMultipartUpload w s filename [] = (Inr (Inr initRes), ?cs)"
        using ini Inr by simp
      show ?thesis
      proof (cases "BlkSize initRes = 0")
        case True
        then show ?thesis using big ini' by (simp add: Save_def calls_inv_def start_state_def)
      next
        case False
        show ?thesis
          unfolding Save_multipart[OF big ini' False]
          using run_calls[OF st] by blast
      qed
    qed
    then show "\<exists>rest. calls (Save w s sched content filename) = (OpInit, req) # rest
           \<and> (\<forall>c \<in> set rest. fst c = OpPart \<or> fst c = OpFinish)"
      by (auto simp: calls_inv_def part_call_def)
  }
qed

text \<open>
  C5, at a failing input. The payload has three bytes and the file is named \<open>100%.txt\<close>:
  \<open>url.Parse\<close> rejects the escape \<open>%.t\<close>, \<open>http.NewRequest\<close> returns a \<open>nil\<close> request with
  an error that \<open>put\<close> discards (line 165), and line 167 panics on the \<open>nil\<close> request. No
  PUT is issued and \<open>Save\<close> returns nothing.
\<close>

theorem unparsable_filename_panics:
  "(let st = Save (demo_world []) demo_storage [] ''abc'' ''100%.txt''
    in int (length ''abc'') \<le> MAX_PUT_SIZE
       \<and> put_request (demo_world []) demo_storage ''abc'' ''100%.txt'' = None
       \<and> pc st = Crashed NilDereference \<and> calls st = [])"
  by (simp add: demo_defs req_defs op_defs run_defs Let_def)

section \<open>The header of a part upload\<close>

text \<open>
  C6. \<open>uploadPart\<close> builds its request exactly when \<open>http.NewRequest\<close> accepts the URL, and
  the request it builds has the block size of the session as its \<open>Content-Length\<close>,
  whatever bytes it carries; and in every run of \<open>Save\<close>, under every schedule, each
  request sent by \<open>uploadPart\<close>, from a goroutine or for the remainder, has that header.
\<close>

theorem part_content_length:
  "(uploadPart_request w s part initRes partNum \<noteq> None \<longleftrightarrow>
      url_parses w (''http://'' @ Bucket initRes @ SUFFIX @ ''/'' @ Key initRes @ ''?uploadId=''
                      @ UploadId initRes @ ''&partNumber='' @ Itoa partNum))
   \<and> (uploadPart_request w s part initRes partNum = Some req \<longrightarrow>
        Header_Get (Header req) ''Content-Length'' = Itoa (BlkSize initRes))
   \<and> (fst (initiateMultipartUpload w s filename []) = Inr (Inr initRes) \<longrightarrow>
        (\<forall>c \<in> set (calls (Save w s sched content filename)).
           fst c = OpPart \<longrightarrow>
           Header_Get (Header (snd c)) ''Content-Length'' = Itoa (BlkSize initRes)))"
proof (intro conjI impI)
  show "uploadPart_request w s part initRes partNum \<noteq> None \<longleftrightarrow>
      url_parses w (''http://'' @ Bucket initRes @ SUFFIX @ ''/'' @ Key initRes @ ''?uploadId=''
                      @ UploadId initRes @ ''&partNumber='' @ Itoa partNum)"
    by (simp add: uploadPart_request_def NewRequest_def Let_def)
next
  assume "uploadPart_request w s part initRes partNum = Some req"
  then show "Header_Get (Header req) ''Content-Length'' = Itoa (BlkSize initRes)"
    by (rule content_length_part)
next
  assume init: "fst (initiateMultipartUpload w s filename []) = Inr (Inr initRes)"
  obtain ireq where ini: "initiateMultipartUpload w s filename [] = (Inr (Inr initRes), [(OpInit, ireq)])"
    using initiate_ok[OF init] by blast
  let ?cs = "[(OpInit, ireq)]"
  have st: "calls_inv initRes ?cs (start_state ?cs)"
    by (simp add: calls_inv_def start_state_def)
  show "\<forall>c \<in> set (calls (Save w s sched content filename)).
           fst c = OpPart \<longrightarrow>
           Header_Get (Header (snd c)) ''Content-Length'' = Itoa (BlkSize initRes)"
  proof (cases "MAX_PUT_SIZE < int (length content)")
    case False
    have "\<forall>c \<in> set (snd (put w s content filename [])). fst c = OpPut"
      using put_cases[of w s content filename "[]"] by auto
    then show ?thesis using False
      by (auto simp: Save_def start_state_def split: prod.splits sum.splits)
  next
    case big: True
    show ?thesis
    proof (cases "BlkSize initRes = 0")
      case True
      then show ?thesis using big ini by (simp add: Save_def start_state_def)
    next
      case False
      have "calls_inv initRes ?cs (Save w s sched content filename)"
        unfolding Save_multipart[OF big ini False] using st by (rule run_calls)
      then obtain rest where r: "calls (Save w s sched content filename) = ?cs @ rest"
        "\<forall>c \<in> set rest. part_call initRes c"
        by (auto simp: calls_inv_def)
      show ?thesis
      proof (intro ballI impI)
        fix c
        assume c: "c \<in> set (calls (Save w s sched content filename))" "fst c = OpPart"
        then have "c \<in> set rest" using r(1) by auto
        then have "part_call initRes c" using r(2) by blast
        then show "Header_Get (Header (snd c)) ''Content-Length'' = Itoa (BlkSize initRes)"
          using c(2) by (simp add: part_call_def)
      qed
    qed
  qed
qed

text \<open>
  The fourth request of a complete run is the remainder part: it carries the single byte
  \<open>c\<close> and announces a \<open>Content-Length\<close> of 26214400.
\<close>

theorem part_content_length_witness:
  "fst (initiateMultipartUpload (demo_world []) demo_storage ''f'' []) = Inr (Inr demo_session)
   \<and> (let c = calls (Save (demo_world []) demo_storage
         [MainStep, StartPart 0, MainStep, MainStep, StartPart 1, MainStep, MainStep,
          FinishPart 0, FinishPart 1, MainStep] demo_payload ''f'') ! 3
      in fst c = OpPart \<and> ReqBody (snd c) = ''c''
         \<and> Header_Get (Header (snd c)) ''Content-Length'' = ''26214400'')"
proof -
  let ?st = "Save (demo_world []) demo_storage
         [MainStep, StartPart 0, MainStep, MainStep, StartPart 1, MainStep, MainStep,
          FinishPart 0, FinishPart 1, MainStep] demo_payload ''f''"
  have e: "length (calls ?st) = 5 \<and> fst (calls ?st ! 3) = OpPart \<and> ReqBody (snd (calls ?st ! 3)) = ''c''"
    by (simp add: demo_defs req_defs op_defs run_defs Let_def)
  then have "calls ?st ! 3 \<in> set (calls ?st)" by simp
  then have "Header_Get (Header (snd (calls ?st ! 3))) ''Content-Length'' = Itoa (BlkSize demo_session)"
    using part_content_length [of "demo_world []" demo_storage "[]" demo_session 0 _ "''f''"
        "[MainStep, StartPart 0, MainStep, MainStep, StartPart 1, MainStep, MainStep,
          FinishPart 0, FinishPart 1, MainStep]" demo_payload] e demo_initiate
    by blast
  moreover have "Itoa (BlkSize demo_session) = ''26214400''"
    by (simp add: demo_session_def Itoa_def utoa.simps)
  ultimately show ?thesis using e demo_initiate by (simp add: Let_def)
qed

section \<open>The arithmetic of \<open>Save\<close> and the block size\<close>

text \<open>
  C8, as the code has it. Let the session be opened for a payload longer than
  \<open>MAX_PUT_SIZE\<close> (and shorter than \<open>2^63\<close>, as every Go slice is). If its block size is
  positive, the quotient is the mathematical one, no product of the partitioning wraps
  around, the bounds of every slice expression lie within the payload in the right order,
  and no schedule leads \<open>Save\<close> to the panic of the division or of a slice expression. If the
  block size is 0, \<open>Save\<close> panics on the division. If the block size is negative, neither of
  the two panics can happen either: the quotient is not positive, the bound of the last slice
  expression is exact and within the payload, and no goroutine is ever started.
\<close>

theorem partition_safe:
  "fst (initiateMultipartUpload w s filename []) = Inr (Inr initRes) \<Longrightarrow>
   MAX_PUT_SIZE < int (length content) \<Longrightarrow> int (length content) < 2 ^ 63 \<Longrightarrow>
   (0 < BlkSize initRes \<longrightarrow>
      go_quot (int (length content)) (BlkSize initRes) = int (length content) div BlkSize initRes
      \<and> (\<forall>j. 0 \<le> j \<and> j < int (length content) div BlkSize initRes \<longrightarrow>
            go_mul j (BlkSize initRes) = j * BlkSize initRes
            \<and> go_mul (go_add j 1) (BlkSize initRes) = (j + 1) * BlkSize initRes
            \<and> 0 \<le> j * BlkSize initRes
            \<and> j * BlkSize initRes \<le> (j + 1) * BlkSize initRes
            \<and> (j + 1) * BlkSize initRes \<le> int (length content))
      \<and> go_mul (int (length content) div BlkSize initRes) (BlkSize initRes)
           = (int (length content) div BlkSize initRes) * BlkSize initRes
      \<and> 0 \<le> (int (length content) div BlkSize initRes) * BlkSize initRes
      \<and> (int (length content) div BlkSize initRes) * BlkSize initRes \<le> int (length content)
      \<and> (\<forall>sched. pc (Save w s sched content filename) \<noteq> Crashed DivideByZero
                \<and> pc (Save w s sched content filename) \<noteq> Crashed SliceOutOfRange))
   \<and> (BlkSize initRes = 0 \<longrightarrow>
        (\<forall>sched. pc (Save w s sched content filename) = Crashed DivideByZero))
   \<and> (BlkSize initRes < 0 \<longrightarrow>
        go_quot (int (length content)) (BlkSize initRes) \<le> 0
        \<and> go_mul (go_quot (int (length content)) (BlkSize initRes)) (BlkSize initRes)
             = go_quot (int (length content)) (BlkSize initRes) * BlkSize initRes
        \<and> 0 \<le> go_quot (int (length content)) (BlkSize initRes) * BlkSize initRes
        \<and> go_quot (int (length content)) (BlkSize initRes) * BlkSize initRes \<le> int (length content)
        \<and> (\<forall>sched. pc (Save w s sched content filename) \<noteq> Crashed DivideByZero
                  \<and> pc (Save w s sched content filename) \<noteq> Crashed SliceOutOfRange
                  \<and> workers (Save w s sched content filename) = Map.empty))"
proof -
  assume init: "fst (initiateMultipartUpload w s filename []) = Inr (Inr initRes)"
    and big: "MAX_PUT_SIZE < int (length content)" and len: "int (length content) < 2 ^ 63"
  obtain req where ini: "initiateMultipartUpload w s filename [] = (Inr (Inr initRes), [(OpInit, req)])"
    using initiate_ok[OF init] by blast
  let ?size = "int (length content)" and ?B = "BlkSize initRes"
  let ?cs = "[(OpInit, req)]"
  have zero: "?B = 0 \<longrightarrow> (\<forall>sched. pc (Save w s sched content filename) = Crashed DivideByZero)"
    using ini big by (simp add: Save_def)
  have pos: "0 < ?B \<longrightarrow>
      go_quot ?size ?B = ?size div ?B
      \<and> (\<forall>j. 0 \<le> j \<and> j < ?size div ?B \<longrightarrow>
            go_mul j ?B = j * ?B \<and> go_mul (go_add j 1) ?B = (j + 1) * ?B
            \<and> 0 \<le> j * ?B \<and> j * ?B \<le> (j + 1) * ?B \<and> (j + 1) * ?B \<le> ?size)
      \<and> go_mul (?size div ?B) ?B = (?size div ?B) * ?B
      \<and> 0 \<le> (?size div ?B) * ?B
      \<and> (?size div ?B) * ?B \<le> ?size
      \<and> (\<forall>sched. pc (Save w s sched content filename) \<noteq> Crashed DivideByZero
                \<and> pc (Save w s sched content filename) \<noteq> Crashed SliceOutOfRange)"
  proof (intro impI conjI allI)
    assume b: "0 < ?B"
    show q: "go_quot ?size ?B = ?size div ?B"
      using len b by (simp add: go_quot_pos)
    have lb: "0 \<le> (?size div ?B) * ?B" "(?size div ?B) * ?B \<le> ?size"
      using last_bounds[of ?size ?B] b by simp_all
    show "0 \<le> (?size div ?B) * ?B" "(?size div ?B) * ?B \<le> ?size" by (rule lb)+
    show "go_mul (?size div ?B) ?B = (?size div ?B) * ?B"
      using lb len by (simp add: go_mul_def wrap64_id)
    {
      fix j
      assume "0 \<le> j \<and> j < ?size div ?B"
      then have j: "0 \<le> j" "j < ?size div ?B" by simp_all
      have pb: "0 \<le> j * ?B" "j * ?B \<le> (j + 1) * ?B" "(j + 1) * ?B \<le> ?size"
        using part_bounds[OF _ b j] by simp_all
      show "0 \<le> j * ?B" "j * ?B \<le> (j + 1) * ?B" "(j + 1) * ?B \<le> ?size" by (rule pb)+
      show "go_mul j ?B = j * ?B" using pb len by (simp add: go_mul_def wrap64_id)
      have "?size div ?B \<le> ?size" using b by (simp add: div_le_self)
      then have "go_add j 1 = j + 1" using j len by (simp add: go_add_def wrap64_id)
      then show "go_mul (go_add j 1) ?B = (j + 1) * ?B"
        using pb len by (simp add: go_mul_def wrap64_id)
    }
    {
      fix sched
      have nz: "?B \<noteq> 0" using b by simp
      have "0 \<le> ?size div ?B" using b by (simp add: pos_imp_zdiv_nonneg_iff)
      then have "safe_inv (?size div ?B) (start_state ?cs)"
        by (rule start_state_safe)
      then have "safe_inv (?size div ?B) (Save w s sched content filename)"
        unfolding Save_multipart[OF big ini nz] q
        by (rule run_safe) (use len b in simp_all)
      then show "pc (Save w s sched content filename) \<noteq> Crashed DivideByZero"
        and "pc (Save w s sched content filename) \<noteq> Crashed SliceOutOfRange"
        by (auto simp: safe_inv_def)
    }
  qed
  have neg: "?B < 0 \<longrightarrow>
        go_quot ?size ?B \<le> 0
        \<and> go_mul (go_quot ?size ?B) ?B = go_quot ?size ?B * ?B
        \<and> 0 \<le> go_quot ?size ?B * ?B
        \<and> go_quot ?size ?B * ?B \<le> ?size
        \<and> (\<forall>sched. pc (Save w s sched content filename) \<noteq> Crashed DivideByZero
                  \<and> pc (Save w s sched content filename) \<noteq> Crashed SliceOutOfRange
                  \<and> workers (Save w s sched content filename) = Map.empty)"
  proof (intro impI conjI allI)
    assume b: "?B < 0"
    have q: "go_quot ?size ?B = - (?size div (- ?B))"
      using len b by (simp add: go_quot_neg)
    have "0 \<le> ?size div (- ?B)" using b by (simp add: pos_imp_zdiv_nonneg_iff)
    then show n0: "go_quot ?size ?B \<le> 0" unfolding q by simp
    show lb: "0 \<le> go_quot ?size ?B * ?B" "go_quot ?size ?B * ?B \<le> ?size"
      unfolding q using neg_last_bounds[of ?size ?B] b by simp_all
    show m: "go_mul (go_quot ?size ?B) ?B = go_quot ?size ?B * ?B"
      using lb len by (simp add: go_mul_def wrap64_id)
    {
      fix sched
      have nz: "?B \<noteq> 0" using b by simp
      have "idle_inv (Save w s sched content filename)"
        unfolding Save_multipart[OF big ini nz]
        using start_state_idle n0 m lb by (rule run_idle)
      then show "pc (Save w s sched content filename) \<noteq> Crashed DivideByZero"
        and "pc (Save w s sched content filename) \<noteq> Crashed SliceOutOfRange"
        and "workers (Save w s sched content filename) = Map.empty"
        by (auto simp: idle_inv_def)
    }
  qed
  show ?thesis using pos zero neg by blast
qed

text \<open>
  The claim as written has the partitioning undefined without the precondition. With the
  block size \<open>-26214400\<close> the quotient is \<open>-2\<close>, the loop body never runs, the bound
  \<open>-2 * -26214400\<close> of the last slice expression is 52428800, and \<open>Save\<close> returns \<open>nil\<close>
  after it has uploaded the last byte as part \<open>-2\<close> and finalised.
\<close>

theorem negative_block_counterexample:
  "(let st = Save negative_block_world demo_storage [MainStep, MainStep] demo_payload ''f''
    in fst (initiateMultipartUpload negative_block_world demo_storage ''f'' [])
         = Inr (Inr (demo_session\<lparr>BlkSize := - 26214400\<rparr>))
       \<and> pc st = Returned None
       \<and> map (\<lambda>c. (fst c, url_tail (URL (snd c)), ReqBody (snd c))) (tl (calls st)) =
           [(OpPart, ''-2'', ''c''), (OpFinish, ''k'', ''etag-2'')])"
  by (simp add: negative_block_world_def demo_defs req_defs op_defs run_defs Let_def)

text \<open>
  With the block size of 25 MiB the quotient is 2 and no slice is out of range; with the
  block size 0 the division panics; with the block size \<open>-26214400\<close> the quotient is \<open>-2\<close>
  and no goroutine is started.
\<close>

theorem partition_safe_witness:
  "fst (initiateMultipartUpload (demo_world []) demo_storage ''f'' []) = Inr (Inr demo_session)
   \<and> MAX_PUT_SIZE < int (length demo_payload) \<and> int (length demo_payload) < 2 ^ 63
   \<and> 0 < BlkSize demo_session
   \<and> go_quot (int (length demo_payload)) (BlkSize demo_session) = 2
   \<and> go_mul (go_add 1 1) (BlkSize demo_session) = 52428800
   \<and> pc (Save (demo_world []) demo_storage [MainStep, StartPart 0] demo_payload ''f'')
        \<noteq> Crashed SliceOutOfRange
   \<and> fst (initiateMultipartUpload zero_block_world demo_storage ''f'' [])
        = Inr (Inr (demo_session\<lparr>BlkSize := 0\<rparr>))
   \<and> BlkSize (demo_session\<lparr>BlkSize := 0\<rparr>) = 0
   \<and> pc (Save zero_block_world demo_storage [MainStep, StartPart 0] demo_payload ''f'')
        = Crashed DivideByZero
   \<and> fst (initiateMultipartUpload negative_block_world demo_storage ''f'' [])
        = Inr (Inr (demo_session\<lparr>BlkSize := - 26214400\<rparr>))
   \<and> BlkSize (demo_session\<lparr>BlkSize := - 26214400\<rparr>) < 0
   \<and> go_quot (int (length demo_payload)) (BlkSize (demo_session\<lparr>BlkSize := - 26214400\<rparr>)) = - 2
   \<and> workers (Save negative_block_world demo_storage [MainStep, StartPart 0] demo_payload ''f'')
        = Map.empty"
proof -
  have h: "MAX_PUT_SIZE < int (length demo_payload)" "int (length demo_payload) < 2 ^ 63"
    by (simp_all add: demo_length MAX_PUT_SIZE_def)
  have b: "0 < BlkSize demo_session" by (simp add: demo_session_def)
  have d: "int (length demo_payload) div BlkSize demo_session = 2"
    by (simp add: demo_length demo_session_def)
  have m: "2 * BlkSize demo_session = 52428800" by (simp add: demo_session_def)
  have bn: "BlkSize (demo_session\<lparr>BlkSize := - 26214400\<rparr>) < 0" by simp
  have qn: "go_quot (int (length demo_payload)) (BlkSize (demo_session\<lparr>BlkSize := - 26214400\<rparr>)) = - 2"
    by (simp add: demo_length go_quot_def wrap64_def)
  show ?thesis
    using partition_safe [OF demo_initiate h, of "[]"] partition_safe [OF zero_initiate h]
      partition_safe [OF negative_initiate h]
      demo_initiate zero_initiate negative_initiate h b d m bn qn
    by simp
qed

section \<open>Runs in which the code departs from the specification\<close>

lemma stuckI:
  assumes "pc st = Wait" "wg st \<noteq> 0"
    and "\<And>j. workers st j = None \<or> workers st j = Some Blocked \<or> workers st j = Some Finished"
  shows "stuck w s content initRes num st"
proof -
  have "step w s content initRes num a st = st" for a
  proof (cases a)
    case MainStep
    then show ?thesis using assms(1,2) by (simp add: step_def main_step_def)
  next
    case (StartPart j)
    then show ?thesis using assms(1) assms(3)[of j] by (auto simp: step_def start_part_def)
  next
    case (FinishPart j)
    then show ?thesis using assms(1) assms(3)[of j] by (auto simp: step_def finish_part_def)
  qed
  then show ?thesis using assms(1) by (simp add: stuck_def)
qed

text \<open>
  C1, at a failing input. Both full-size parts and the remainder succeed, and the upload of
  part 1 completes before the upload of part 0. The finalisation request then lists the
  tag of part 1 before the tag of part 0: the tags are in completion order.
\<close>

theorem tags_in_completion_order:
  "(let st = Save (demo_world []) demo_storage
       [MainStep, StartPart 0, MainStep, MainStep, StartPart 1, MainStep, MainStep,
        FinishPart 1, FinishPart 0, MainStep] demo_payload ''f''
    in pc st = Returned None
       \<and> map (\<lambda>c. (fst c, url_tail (URL (snd c)), ReqBody (snd c))) (tl (calls st)) =
           [(OpPart, ''0'', replicate 26214400 (CHR ''a'')),
            (OpPart, ''1'', replicate 26214400 (CHR ''b'')),
            (OpPart, ''2'', ''c''),
            (OpFinish, ''k'', ''etag1,etag0,etag2'')])"
  by (simp add: demo_defs req_defs op_defs run_defs Let_def)

text \<open>
  C2, at a failing input. The loop has run to its end before the goroutines call
  \<open>uploadPart\<close>, whose third argument is the loop variable \<open>i\<close> and not the parameter \<open>j\<close>:
  the byte ranges are those of parts 0 and 1, and both requests carry the part number 2,
  as the remainder does.
\<close>

theorem part_number_is_loop_variable:
  "(let st = Save (demo_world []) demo_storage
       [MainStep, MainStep, MainStep, MainStep, MainStep, StartPart 0, StartPart 1,
        FinishPart 0, FinishPart 1, MainStep] demo_payload ''f''
    in pc st = Returned None
       \<and> map (\<lambda>c. (fst c, url_tail (URL (snd c)), ReqBody (snd c))) (tl (calls st)) =
           [(OpPart, ''2'', replicate 26214400 (CHR ''a'')),
            (OpPart, ''2'', replicate 26214400 (CHR ''b'')),
            (OpPart, ''2'', ''c''),
            (OpFinish, ''k'', ''etag2,etag2,etag2'')])"
  by (simp add: demo_defs req_defs op_defs run_defs Let_def)

text \<open>
  C3, at a failing input. The upload of part 0 is answered with 500. Its error is sent to
  \<open>errChan\<close>, which nobody reads; \<open>Save\<close> finalises the upload with the two other tags and
  returns \<open>nil\<close>.
\<close>

theorem failed_part_is_finalized:
  "(let st = Save (demo_world [''0'']) demo_storage
       [MainStep, StartPart 0, MainStep, MainStep, StartPart 1, MainStep, MainStep,
        FinishPart 0, FinishPart 1, MainStep] demo_payload ''f''
    in pc st = Returned None
       \<and> errChan st = Some (Errorf ''uploadPart failed, {}'')
       \<and> map (\<lambda>c. (fst c, url_tail (URL (snd c)), ReqBody (snd c))) (tl (calls st)) =
           [(OpPart, ''0'', replicate 26214400 (CHR ''a'')),
            (OpPart, ''1'', replicate 26214400 (CHR ''b'')),
            (OpPart, ''2'', ''c''),
            (OpFinish, ''k'', ''etag1,etag2'')])"
  by (simp add: demo_defs req_defs op_defs run_defs Let_def)

lemma two_failures_state:
  "(let st = Save (demo_world [''0'', ''1'']) demo_storage
       [MainStep, StartPart 0, MainStep, MainStep, StartPart 1, MainStep, MainStep,
        FinishPart 0, FinishPart 1, MainStep] demo_payload ''f''
    in pc st = Wait \<and> wg st = 1 \<and> workers st = [0 \<mapsto> Finished, 1 \<mapsto> Blocked]
       \<and> map (\<lambda>c. (fst c, url_tail (URL (snd c)), ReqBody (snd c))) (tl (calls st)) =
           [(OpPart, ''0'', replicate 26214400 (CHR ''a'')),
            (OpPart, ''1'', replicate 26214400 (CHR ''b''))])"
  by (simp add: demo_defs req_defs op_defs run_defs Let_def)


text \<open>
  C4, at a failing input. The uploads of parts 0 and 1 are both answered with 500. The
  second goroutine blocks on \<open>errChan\<close>, \<open>wg.Wait\<close> never returns, and no step is possible
  any more: the remainder, one byte, is never uploaded.
\<close>

theorem two_failures_block_remainder:
  "(let st = Save (demo_world [''0'', ''1'']) demo_storage
       [MainStep, StartPart 0, MainStep, MainStep, StartPart 1, MainStep, MainStep,
        FinishPart 0, FinishPart 1, MainStep] demo_payload ''f''
    in stuck (demo_world [''0'', ''1'']) demo_storage demo_payload demo_session 2 st
       \<and> int (length demo_payload) mod BlkSize demo_session = 1
       \<and> map (\<lambda>c. (fst c, url_tail (URL (snd c)), ReqBody (snd c))) (tl (calls st)) =
           [(OpPart, ''0'', replicate 26214400 (CHR ''a'')),
            (OpPart, ''1'', replicate 26214400 (CHR ''b''))])"
proof -
  let ?st = "Save (demo_world [''0'', ''1'']) demo_storage
       [MainStep, StartPart 0, MainStep, MainStep, StartPart 1, MainStep, MainStep,
        FinishPart 0, FinishPart 1, MainStep] demo_payload ''f''"
  have s: "pc ?st = Wait" "wg ?st = 1" "workers ?st = [0 \<mapsto> Finished, 1 \<mapsto> Blocked]"
    "map (\<lambda>c. (fst c, url_tail (URL (snd c)), ReqBody (snd c))) (tl (calls ?st)) =
           [(OpPart, ''0'', replicate 26214400 (CHR ''a'')),
            (OpPart, ''1'', replicate 26214400 (CHR ''b''))]"
    using two_failures_state by (simp_all add: Let_def)
  have "stuck (demo_world [''0'', ''1'']) demo_storage demo_payload demo_session 2 ?st"
    by (rule stuckI) (simp_all add: s)
  moreover have "int (length demo_payload) mod BlkSize demo_session = 1"
    by (simp add: demo_payload_def demo_session_def)
  ultimately show ?thesis using s(4) by (simp add: Let_def)
qed

end
